theory Spec2Isabelle
  imports Main "HOL-Library.Multiset" "HOL-Library.Sublist"
begin

section \<open>Python values and list operations used by the players\<close>

text \<open>
  The repository holds several variants of one desktop player. Three of them carry the
  playlist and play-order logic examined here:
  \<^item> \<^verbatim>\<open>sai_mp3_player_full.py\<close> (the full variant),
  \<^item> \<^verbatim>\<open>sai_mp3_player_slick_autoplay_timer_voice_select_no_underscore.py\<close>
    (the autoplay variant),
  \<^item> \<^verbatim>\<open>sai_mp3_player_slick.py\<close> (the slick variant).
  Each method of \<^verbatim>\<open>MainWindow\<close> becomes a function on a record of the window's
  fields. An exception that leaves a method is the value \<open>Inl e\<close>; the commands sent to
  the playback engine are appended to a log kept in the state. Widgets, the tray icon and
  speech output are not part of the model.
\<close>

datatype py_error = IndexError | ValueError | TypeError | AttributeError

text \<open>Python's subscript \<^verbatim>\<open>xs[i]\<close>: a negative index counts from the end.\<close>

definition py_getitem :: "'a list \<Rightarrow> int \<Rightarrow> py_error + 'a" where
  "py_getitem xs i =
     (if 0 \<le> i \<and> i < int (length xs) then Inr (xs ! nat i)
      else if i < 0 \<and> - int (length xs) \<le> i then Inr (xs ! nat (int (length xs) + i))
      else Inl IndexError)"

text \<open>
  \<^verbatim>\<open>xs.index(x)\<close>: the offset of the first occurrence, \<open>None\<close> where Python raises
  \<^verbatim>\<open>ValueError\<close>.
\<close>

fun list_index :: "'a list \<Rightarrow> 'a \<Rightarrow> nat option" where
  "list_index [] x = None"
| "list_index (y # ys) x = (if y = x then Some 0 else map_option Suc (list_index ys x))"

text \<open>
  \<^verbatim>\<open>random.shuffle(x)\<close> belongs to Python's standard library, not to the repository.
  It is modelled after CPython's implementation,
  \<^verbatim>\<open>for i in reversed(range(1, len(x))): j = randbelow(i + 1); x[i], x[j] = x[j], x[i]\<close>,
  with the random source as a parameter: \<open>rnd i\<close> is the raw draw made at step \<open>i\<close>,
  reduced into \<open>{0..i}\<close>.
\<close>

fun shuffle_steps :: "(nat \<Rightarrow> nat) \<Rightarrow> nat \<Rightarrow> 'a list \<Rightarrow> 'a list" where
  "shuffle_steps rnd 0 xs = xs"
| "shuffle_steps rnd (Suc k) xs =
     shuffle_steps rnd k
       (xs[Suc k := xs ! (rnd (Suc k) mod (Suc k + 1)),
           rnd (Suc k) mod (Suc k + 1) := xs ! Suc k])"

definition py_shuffle :: "(nat \<Rightarrow> nat) \<Rightarrow> 'a list \<Rightarrow> 'a list" where
  "py_shuffle rnd xs = shuffle_steps rnd (length xs - 1) xs"

section \<open>Tracks and the window state (full and autoplay variants)\<close>

record track =
  path :: string
  title :: string
  artist :: string
  album :: string
  duration_ms :: int

datatype engine_cmd = LoadPath string | Play | Pause | Stop

text \<open>
  The fields of \<^verbatim>\<open>MainWindow\<close> that the playlist logic reads and writes.
  \<open>search_text\<close> is the content of the search box, \<open>engine_log\<close> the commands issued
  to \<^verbatim>\<open>PlayerEngine\<close> so far.
\<close>

record player =
  tracks :: "track list"
  visible_indices :: "int list"
  play_order :: "int list"
  play_pos :: int
  history :: "int list"
  repeat_one :: bool
  repeat_all :: bool
  shuffle :: bool
  search_text :: string
  engine_log :: "engine_cmd list"

text \<open>The state built by \<^verbatim>\<open>MainWindow.__init__\<close>.\<close>

definition init_player :: player where
  "init_player =
     \<lparr>tracks = [], visible_indices = [], play_order = [], play_pos = -1, history = [],
      repeat_one = False, repeat_all = True, shuffle = False, search_text = [],
      engine_log = []\<rparr>"

subsection \<open>Playback order\<close>

definition current_track_index :: "player \<Rightarrow> py_error + int" where
  "current_track_index s =
     (if play_pos s < 0 \<or> play_pos s \<ge> int (length (play_order s)) then Inr (- 1)
      else py_getitem (play_order s) (play_pos s))"

definition rebuild_play_order :: "bool \<Rightarrow> (nat \<Rightarrow> nat) \<Rightarrow> player \<Rightarrow> py_error + player" where
  "rebuild_play_order keep_current rnd s =
     (case current_track_index s of
        Inl e \<Rightarrow> Inl e
      | Inr current_idx \<Rightarrow>
          (let base = (if shuffle s then py_shuffle rnd (visible_indices s)
                       else visible_indices s);
               s1 = s\<lparr>play_order := base\<rparr>
           in if base = [] then Inr (s1\<lparr>play_pos := - 1\<rparr>)
              else if keep_current \<and> current_idx \<in> set base then
                (case list_index base current_idx of
                   None \<Rightarrow> Inl ValueError
                 | Some i \<Rightarrow> Inr (s1\<lparr>play_pos := int i\<rparr>))
              else Inr (s1\<lparr>play_pos := 0\<rparr>)))"

text \<open>The value of the local variable \<^verbatim>\<open>base\<close> once \<^verbatim>\<open>_rebuild_play_order\<close> has shuffled it.\<close>

definition order_base :: "(nat \<Rightarrow> nat) \<Rightarrow> player \<Rightarrow> int list" where
  "order_base rnd s =
     (if shuffle s then py_shuffle rnd (visible_indices s) else visible_indices s)"

text \<open>
  \<^verbatim>\<open>_load_current_and_play\<close>: nothing happens without a current track; otherwise the
  track's file is loaded and started. \<^verbatim>\<open>self.tracks[idx]\<close> is a subscript and can
  raise.
\<close>

definition load_current_and_play :: "player \<Rightarrow> py_error + player" where
  "load_current_and_play s =
     (case current_track_index s of
        Inl e \<Rightarrow> Inl e
      | Inr idx \<Rightarrow>
          if idx = - 1 then Inr s
          else (case py_getitem (tracks s) idx of
                  Inl e \<Rightarrow> Inl e
                | Inr t \<Rightarrow> Inr (s\<lparr>engine_log := engine_log s @ [LoadPath (path t), Play]\<rparr>)))"

subsection \<open>Strings of the search box\<close>

text \<open>
  A \<open>char\<close> stands for a code point below 256. \<open>py_isspace\<close> is \<^verbatim>\<open>str.isspace\<close> and
  \<open>lower_char\<close> is \<^verbatim>\<open>str.lower\<close> on these code points; \<open>py_strip\<close> is
  \<^verbatim>\<open>str.strip()\<close>, and \<open>py_contains hay q\<close> is \<^verbatim>\<open>q in hay\<close>.
\<close>

definition py_isspace :: "char \<Rightarrow> bool" where
  "py_isspace c =
     (let n = (of_char c :: nat)
      in (9 \<le> n \<and> n \<le> 13) \<or> (28 \<le> n \<and> n \<le> 32) \<or> n = 133 \<or> n = 160)"

definition lower_char :: "char \<Rightarrow> char" where
  "lower_char c =
     (let n = (of_char c :: nat)
      in if (65 \<le> n \<and> n \<le> 90) \<or> (192 \<le> n \<and> n \<le> 214) \<or> (216 \<le> n \<and> n \<le> 222)
         then char_of (n + 32) else c)"

definition py_lower :: "string \<Rightarrow> string" where
  "py_lower s = map lower_char s"

definition py_strip :: "string \<Rightarrow> string" where
  "py_strip s = rev (dropWhile py_isspace (rev (dropWhile py_isspace s)))"

fun py_contains :: "string \<Rightarrow> string \<Rightarrow> bool" where
  "py_contains [] q = (q = [])"
| "py_contains (c # cs) q = (prefix q (c # cs) \<or> py_contains cs q)"

text \<open>The text searched for a track: \<^verbatim>\<open>f"{t.title} {t.artist} {t.album}".lower()\<close>.\<close>

definition haystack :: "track \<Rightarrow> string" where
  "haystack t = py_lower (title t @ '' '' @ artist t @ '' '' @ album t)"

text \<open>
  The loop of \<^verbatim>\<open>_apply_filter\<close> over \<^verbatim>\<open>enumerate(self.tracks)\<close>; \<open>i\<close> is the
  index of the head of the remaining list.
\<close>

fun filter_loop :: "string \<Rightarrow> int \<Rightarrow> track list \<Rightarrow> int list" where
  "filter_loop q i [] = []"
| "filter_loop q i (t # ts) =
     (if q = [] \<or> py_contains (haystack t) q then i # filter_loop q (i + 1) ts
      else filter_loop q (i + 1) ts)"

definition apply_filter :: "(nat \<Rightarrow> nat) \<Rightarrow> player \<Rightarrow> py_error + player" where
  "apply_filter rnd s =
     (let q = py_lower (py_strip (search_text s))
      in rebuild_play_order True rnd (s\<lparr>visible_indices := filter_loop q 0 (tracks s)\<rparr>))"

subsection \<open>Navigation in the full variant\<close>

definition play_by_track_index :: "int \<Rightarrow> (nat \<Rightarrow> nat) \<Rightarrow> player \<Rightarrow> py_error + player" where
  "play_by_track_index idx rnd s =
     (if idx < 0 \<or> idx \<ge> int (length (tracks s)) then Inr s
      else if idx \<in> set (play_order s) then
        (case list_index (play_order s) idx of
           None \<Rightarrow> Inl ValueError
         | Some i \<Rightarrow> load_current_and_play (s\<lparr>play_pos := int i\<rparr>))
      else
        (case rebuild_play_order False rnd s of
           Inl e \<Rightarrow> Inl e
         | Inr s1 \<Rightarrow>
             if idx \<in> set (play_order s1) then
               (case list_index (play_order s1) idx of
                  None \<Rightarrow> Inl ValueError
                | Some i \<Rightarrow> load_current_and_play (s1\<lparr>play_pos := int i\<rparr>))
             else load_current_and_play s1))"

text \<open>
  \<^verbatim>\<open>play_next\<close> of the full variant. The current index is appended to the history
  before \<^verbatim>\<open>repeat_one\<close> is looked at.
\<close>

definition play_next :: "player \<Rightarrow> py_error + player" where
  "play_next s =
     (if play_order s = [] then Inr s
      else
        (case current_track_index s of
           Inl e \<Rightarrow> Inl e
         | Inr cur \<Rightarrow>
             (let s1 = (if cur \<noteq> - 1 then s\<lparr>history := history s @ [cur]\<rparr> else s)
              in if repeat_one s1 then load_current_and_play s1
                 else if play_pos s1 + 1 \<ge> int (length (play_order s1)) then
                   (if repeat_all s1 then load_current_and_play (s1\<lparr>play_pos := 0\<rparr>)
                    else Inr (s1\<lparr>engine_log := engine_log s1 @ [Stop]\<rparr>))
                 else load_current_and_play (s1\<lparr>play_pos := play_pos s1 + 1\<rparr>))))"

definition play_prev :: "(nat \<Rightarrow> nat) \<Rightarrow> player \<Rightarrow> py_error + player" where
  "play_prev rnd s =
     (if play_order s = [] then Inr s
      else if history s \<noteq> [] then
        play_by_track_index (last (history s)) rnd (s\<lparr>history := butlast (history s)\<rparr>)
      else
        (let prv = play_pos s - 1;
             prv' = (if prv < 0
                     then (if repeat_all s then int (length (play_order s)) - 1 else 0)
                     else prv)
         in load_current_and_play (s\<lparr>play_pos := prv'\<rparr>)))"

definition handle_track_end :: "player \<Rightarrow> py_error + player" where
  "handle_track_end s = (if repeat_one s then load_current_and_play s else play_next s)"

definition on_shuffle_changed :: "bool \<Rightarrow> (nat \<Rightarrow> nat) \<Rightarrow> player \<Rightarrow> py_error + player" where
  "on_shuffle_changed checked rnd s =
     rebuild_play_order True rnd (s\<lparr>shuffle := checked, history := []\<rparr>)"

text \<open>
  The state once \<^verbatim>\<open>play_next\<close> has run
  \<^verbatim>\<open>cur = self._current_track_index()\<close> and \<^verbatim>\<open>if cur != -1: self.history.append(cur)\<close>;
  both variants contain these two statements.
\<close>

definition push_current :: "player \<Rightarrow> player" where
  "push_current s =
     (case current_track_index s of
        Inr cur \<Rightarrow> if cur \<noteq> - 1 then s\<lparr>history := history s @ [cur]\<rparr> else s
      | Inl e \<Rightarrow> s)"

subsection \<open>Navigation in the autoplay variant\<close>

text \<open>
  The autoplay variant has the same \<^verbatim>\<open>_apply_filter\<close>, \<^verbatim>\<open>_rebuild_play_order\<close>,
  \<^verbatim>\<open>_current_track_index\<close> and (up to speech and highlighting)
  \<^verbatim>\<open>_load_current_and_play\<close> as the full variant; its \<^verbatim>\<open>play_next\<close> and
  \<^verbatim>\<open>play_prev\<close> differ.
\<close>

definition play_next_auto :: "player \<Rightarrow> py_error + player" where
  "play_next_auto s =
     (if play_order s = [] then Inr s
      else if repeat_one s then load_current_and_play s
      else
        (case current_track_index s of
           Inl e \<Rightarrow> Inl e
         | Inr cur \<Rightarrow>
             (let s1 = (if cur \<noteq> - 1 then s\<lparr>history := history s @ [cur]\<rparr> else s)
              in if play_pos s1 + 1 \<ge> int (length (play_order s1)) then
                   (if repeat_all s1 then load_current_and_play (s1\<lparr>play_pos := 0\<rparr>)
                    else Inr (s1\<lparr>engine_log := engine_log s1 @ [Stop]\<rparr>))
                 else load_current_and_play (s1\<lparr>play_pos := play_pos s1 + 1\<rparr>))))"

text \<open>The part of \<^verbatim>\<open>play_prev\<close> after the history has been consulted.\<close>

definition step_back :: "player \<Rightarrow> py_error + player" where
  "step_back s =
     (let prv = play_pos s - 1;
          prv' = (if prv < 0
                  then (if repeat_all s then int (length (play_order s)) - 1 else 0)
                  else prv)
      in load_current_and_play (s\<lparr>play_pos := prv'\<rparr>))"

definition play_prev_auto :: "player \<Rightarrow> py_error + player" where
  "play_prev_auto s =
     (if play_order s = [] then Inr s
      else if history s \<noteq> [] then
        (let idx = last (history s);
             s1 = s\<lparr>history := butlast (history s)\<rparr>
         in if idx \<in> set (play_order s1) then
              (case list_index (play_order s1) idx of
                 None \<Rightarrow> Inl ValueError
               | Some i \<Rightarrow> load_current_and_play (s1\<lparr>play_pos := int i\<rparr>))
            else step_back s1)
      else step_back s)"


section \<open>Importing files\<close>

text \<open>
  \<^verbatim>\<open>pathlib\<close> and the file system are outside the repository. A value of type \<open>'p\<close> is
  a \<^verbatim>\<open>Path\<close> object; the record holds the operations the players call on paths.
\<close>

record 'p host =
  mk_path :: "string \<Rightarrow> 'p"
  path_str :: "'p \<Rightarrow> string"
  path_stem :: "'p \<Rightarrow> string"
  path_exists :: "'p \<Rightarrow> bool"

text \<open>
  \<^verbatim>\<open>_read_metadata\<close> of the full variant never raises. \<open>probe p\<close> stands for the values
  of \<^verbatim>\<open>title\<close>, \<^verbatim>\<open>artist\<close>, \<^verbatim>\<open>album\<close> and \<^verbatim>\<open>duration_ms\<close> when the
  \<^verbatim>\<open>try\<close> block around the tag reader is left (the defaults where nothing was read).
\<close>

definition read_metadata ::
  "'p host \<Rightarrow> ('p \<Rightarrow> string \<times> string \<times> string \<times> int) \<Rightarrow> 'p \<Rightarrow> track" where
  "read_metadata h probe p =
     (case probe p of
        (ti, ar, al, d) \<Rightarrow>
          \<lparr>path = path_str h p, title = (if ti = [] then path_stem h p else ti),
           artist = ar, album = al, duration_ms = d\<rparr>)"

text \<open>
  The loop of \<^verbatim>\<open>_add_paths\<close> in the full variant, on the registry and the counter
  \<^verbatim>\<open>added\<close>.
\<close>

fun add_loop ::
  "'p host \<Rightarrow> ('p \<Rightarrow> string \<times> string \<times> string \<times> int) \<Rightarrow> 'p list \<Rightarrow> track list \<Rightarrow> nat
     \<Rightarrow> track list \<times> nat" where
  "add_loop h probe [] ts added = (ts, added)"
| "add_loop h probe (p # ps) ts added =
     (if \<not> path_exists h p then add_loop h probe ps ts added
      else if list_ex (\<lambda>t. mk_path h (path t) = p) ts then add_loop h probe ps ts added
      else add_loop h probe ps (ts @ [read_metadata h probe p]) (added + 1))"

definition add_paths ::
  "'p host \<Rightarrow> ('p \<Rightarrow> string \<times> string \<times> string \<times> int) \<Rightarrow> (nat \<Rightarrow> nat) \<Rightarrow> (nat \<Rightarrow> nat)
     \<Rightarrow> 'p list \<Rightarrow> player \<Rightarrow> py_error + player" where
  "add_paths h probe rnd1 rnd2 ps s =
     (case add_loop h probe ps (tracks s) 0 of
        (ts, added) \<Rightarrow>
          if added \<noteq> 0 then
            (case apply_filter rnd1 (s\<lparr>tracks := ts\<rparr>) of
               Inl e \<Rightarrow> Inl e
             | Inr s1 \<Rightarrow> rebuild_play_order False rnd2 s1)
          else Inr (s\<lparr>tracks := ts\<rparr>))"

section \<open>Playlist files\<close>

text \<open>
  \<^verbatim>\<open>json.dump\<close> and \<^verbatim>\<open>json.load\<close> are library code: a playlist file is taken to
  hold the JSON value itself. An object is the parsed dictionary, kept as a list of
  bindings with distinct keys in the order written. Numbers are integers.
\<close>

datatype json =
  JNull | JBool bool | JInt int | JStr string | JArr "json list" | JObj "(string \<times> json) list"

definition dict_get :: "(string \<times> json) list \<Rightarrow> string \<Rightarrow> json \<Rightarrow> json" where
  "dict_get kvs k dflt = (case map_of kvs k of None \<Rightarrow> dflt | Some v \<Rightarrow> v)"

definition asdict :: "track \<Rightarrow> json" where
  "asdict t =
     JObj [(''path'', JStr (path t)), (''title'', JStr (title t)),
           (''artist'', JStr (artist t)), (''album'', JStr (album t)),
           (''duration_ms'', JInt (duration_ms t))]"

datatype save_result = NoTracks | SaveCancelled | SaveFailed | Saved string json

text \<open>
  \<^verbatim>\<open>save_playlist\<close>: \<open>chosen\<close> is the file name returned by the dialog (empty when
  the dialog is cancelled), \<open>now\<close> is \<^verbatim>\<open>int(time.time())\<close>, and \<open>writable\<close> tells
  whether opening and writing the file succeeds.
\<close>

definition save_playlist :: "string \<Rightarrow> int \<Rightarrow> bool \<Rightarrow> player \<Rightarrow> save_result" where
  "save_playlist chosen now writable s =
     (if tracks s = [] then NoTracks
      else if chosen = [] then SaveCancelled
      else if \<not> writable then SaveFailed
      else Saved chosen
             (JObj [(''version'', JInt 1), (''saved_at'', JInt now),
                    (''tracks'', JArr (map asdict (tracks s)))]))"

text \<open>
  One round of the loop of \<^verbatim>\<open>load_playlist\<close>. \<open>Skip\<close> is \<^verbatim>\<open>continue\<close>,
  \<open>Raises\<close> an exception that leaves the method. A text field that holds another JSON
  type than a string, and a duration given as a string, are \<open>NotModelled\<close>: Python builds
  a \<^verbatim>\<open>Track\<close> from them that the record \<open>track\<close> cannot hold.
\<close>

datatype entry = Skip | Entry track | Raises py_error | NotModelled

fun py_truthy :: "json \<Rightarrow> bool" where
  "py_truthy JNull = False"
| "py_truthy (JBool b) = b"
| "py_truthy (JInt n) = (n \<noteq> 0)"
| "py_truthy (JStr x) = (x \<noteq> [])"
| "py_truthy (JArr xs) = (xs \<noteq> [])"
| "py_truthy (JObj kvs) = (kvs \<noteq> [])"

definition load_entry :: "'p host \<Rightarrow> json \<Rightarrow> entry" where
  "load_entry h t =
     (case t of
        JObj kvs \<Rightarrow>
          (let p = dict_get kvs ''path'' (JStr []) in
           if \<not> py_truthy p then Skip
           else (case p of
              JStr ps \<Rightarrow>
                if \<not> path_exists h (mk_path h ps) then Skip
                else (case (dict_get kvs ''title'' (JStr []), dict_get kvs ''artist'' (JStr []),
                            dict_get kvs ''album'' (JStr []), dict_get kvs ''duration_ms'' (JInt (- 1))) of
                   (JStr ti, JStr ar, JStr al, JInt d) \<Rightarrow>
                     Entry \<lparr>path = ps, title = ti, artist = ar, album = al, duration_ms = d\<rparr>
                 | (JStr ti, JStr ar, JStr al, JBool b) \<Rightarrow>
                     Entry \<lparr>path = ps, title = ti, artist = ar, album = al,
                            duration_ms = (if b then 1 else 0)\<rparr>
                 | (JStr ti, JStr ar, JStr al, JNull) \<Rightarrow> Raises TypeError
                 | (JStr ti, JStr ar, JStr al, JArr xs) \<Rightarrow> Raises TypeError
                 | (JStr ti, JStr ar, JStr al, JObj xs) \<Rightarrow> Raises TypeError
                 | _ \<Rightarrow> NotModelled)
            | _ \<Rightarrow> Raises TypeError))
      | _ \<Rightarrow> Raises AttributeError)"

fun load_loop :: "'p host \<Rightarrow> json list \<Rightarrow> track list \<Rightarrow> entry + track list" where
  "load_loop h [] loaded = Inr loaded"
| "load_loop h (t # ts) loaded =
     (case load_entry h t of
        Skip \<Rightarrow> load_loop h ts loaded
      | Entry tr \<Rightarrow> load_loop h ts (loaded @ [tr])
      | bad \<Rightarrow> Inl bad)"

text \<open>
  What the \<^verbatim>\<open>for\<close> statement iterates over: the elements of an array, the keys of an
  object, the characters of a string; anything else is not iterable.
\<close>

fun py_iter :: "json \<Rightarrow> py_error + json list" where
  "py_iter (JArr xs) = Inr xs"
| "py_iter (JObj kvs) = Inr (map (\<lambda>kv. JStr (fst kv)) kvs)"
| "py_iter (JStr x) = Inr (map (\<lambda>c. JStr [c]) x)"
| "py_iter _ = Inl TypeError"

datatype file_read = ReadError | DecodeError | Document json

datatype load_result =
  LoadCancelled | LoadFailed | InvalidJSON | NothingLoaded | LoadRaised py_error
  | LoadNotModelled | Loaded player

text \<open>
  \<^verbatim>\<open>load_playlist\<close>: \<open>chosen\<close> is the file name from the dialog and \<open>content\<close> what
  opening and parsing that file gives. Only \<open>Loaded\<close> changes the window's state.
\<close>

definition load_playlist ::
  "'p host \<Rightarrow> (nat \<Rightarrow> nat) \<Rightarrow> (nat \<Rightarrow> nat) \<Rightarrow> string \<Rightarrow> file_read \<Rightarrow> player \<Rightarrow> load_result" where
  "load_playlist h rnd1 rnd2 chosen content s =
     (if chosen = [] then LoadCancelled
      else (case content of
         ReadError \<Rightarrow> LoadFailed
       | DecodeError \<Rightarrow> InvalidJSON
       | Document doc \<Rightarrow>
          (case doc of
             JObj kvs \<Rightarrow>
               (case py_iter (dict_get kvs ''tracks'' (JArr [])) of
                  Inl e \<Rightarrow> LoadRaised e
                | Inr ts \<Rightarrow>
                   (case load_loop h ts [] of
                      Inl (Raises e) \<Rightarrow> LoadRaised e
                    | Inl _ \<Rightarrow> LoadNotModelled
                    | Inr loaded \<Rightarrow>
                        if loaded = [] then NothingLoaded
                        else (case apply_filter rnd1 (s\<lparr>tracks := loaded, history := []\<rparr>) of
                                Inl e \<Rightarrow> LoadRaised e
                              | Inr s1 \<Rightarrow>
                                 (case rebuild_play_order False rnd2 s1 of
                                    Inl e \<Rightarrow> LoadRaised e
                                  | Inr s2 \<Rightarrow> Loaded s2))))
           | _ \<Rightarrow> LoadRaised AttributeError)))"

section \<open>The slick variant\<close>

record slick =
  sl_tracks :: "track list"
  sl_order :: "int list"
  sl_pos :: int
  sl_shuffle :: bool
  sl_repeat_all :: bool
  sl_repeat_one :: bool
  sl_search :: string
  sl_engine :: "engine_cmd list"

definition init_slick :: slick where
  "init_slick =
     \<lparr>sl_tracks = [], sl_order = [], sl_pos = - 1, sl_shuffle = False, sl_repeat_all = True,
      sl_repeat_one = False, sl_search = [], sl_engine = []\<rparr>"

text \<open>
  \<^verbatim>\<open>_add\<close>: \<open>tags p\<close> is the title, artist, album and duration computed inside the
  \<^verbatim>\<open>try\<close> block, or \<open>None\<close> when something there raises; the \<^verbatim>\<open>except\<close> clause
  then drops the file.
\<close>

definition slick_add ::
  "'p host \<Rightarrow> ('p \<Rightarrow> (string \<times> string \<times> string \<times> int) option) \<Rightarrow> 'p \<Rightarrow> slick \<Rightarrow> slick" where
  "slick_add h tags p s =
     (case tags p of
        None \<Rightarrow> s
      | Some (ti, ar, al, d) \<Rightarrow>
          s\<lparr>sl_tracks := sl_tracks s @
               [\<lparr>path = path_str h p, title = ti, artist = ar, album = al, duration_ms = d\<rparr>]\<rparr>)"

fun slick_filter_loop :: "string \<Rightarrow> int \<Rightarrow> track list \<Rightarrow> int list" where
  "slick_filter_loop q i [] = []"
| "slick_filter_loop q i (t # ts) =
     (if py_contains (haystack t) q then i # slick_filter_loop q (i + 1) ts
      else slick_filter_loop q (i + 1) ts)"

definition slick_refresh :: "(nat \<Rightarrow> nat) \<Rightarrow> slick \<Rightarrow> slick" where
  "slick_refresh rnd s =
     (let found = slick_filter_loop (py_lower (sl_search s)) 0 (sl_tracks s)
      in s\<lparr>sl_order := (if sl_shuffle s then py_shuffle rnd found else found)\<rparr>)"

definition slick_add_files ::
  "'p host \<Rightarrow> ('p \<Rightarrow> (string \<times> string \<times> string \<times> int) option) \<Rightarrow> (nat \<Rightarrow> nat) \<Rightarrow> 'p list
     \<Rightarrow> slick \<Rightarrow> slick" where
  "slick_add_files h tags rnd ps s = slick_refresh rnd (foldl (\<lambda>s' p. slick_add h tags p s') s ps)"

definition slick_play :: "slick \<Rightarrow> py_error + slick" where
  "slick_play s =
     (case py_getitem (sl_order s) (sl_pos s) of
        Inl e \<Rightarrow> Inl e
      | Inr idx \<Rightarrow>
          (case py_getitem (sl_tracks s) idx of
             Inl e \<Rightarrow> Inl e
           | Inr t \<Rightarrow> Inr (s\<lparr>sl_engine := sl_engine s @ [LoadPath (path t), Play]\<rparr>)))"

definition slick_next :: "slick \<Rightarrow> py_error + slick" where
  "slick_next s =
     (if sl_order s = [] then Inr s
      else if sl_repeat_one s then slick_play s
      else
        (let s1 = s\<lparr>sl_pos := sl_pos s + 1\<rparr>
         in if sl_pos s1 \<ge> int (length (sl_order s1)) then
              (if \<not> sl_repeat_all s1 then Inr s1
               else slick_play (s1\<lparr>sl_pos := 0\<rparr>))
            else slick_play s1))"

definition slick_prev :: "slick \<Rightarrow> py_error + slick" where
  "slick_prev s =
     (if sl_order s = [] then Inr s
      else slick_play (s\<lparr>sl_pos := max 0 (sl_pos s - 1)\<rparr>))"

section \<open>Well-formed states and sequences of operations\<close>

text \<open>The cursor invariant of the data model.\<close>

definition cursor_ok :: "player \<Rightarrow> bool" where
  "cursor_ok s \<longleftrightarrow>
     - 1 \<le> play_pos s \<and> play_pos s < int (length (play_order s)) \<and>
     (play_order s = [] \<longrightarrow> play_pos s = - 1)"

definition slick_cursor_ok :: "slick \<Rightarrow> bool" where
  "slick_cursor_ok s \<longleftrightarrow>
     - 1 \<le> sl_pos s \<and> sl_pos s < int (length (sl_order s)) \<and>
     (sl_order s = [] \<longrightarrow> sl_pos s = - 1)"

text \<open>
  A window of the slick variant in which \<^verbatim>\<open>_play\<close> cannot raise: the cursor is a
  valid offset and every entry of the play order names a track.
\<close>

definition slick_playable :: "slick \<Rightarrow> bool" where
  "slick_playable s \<longleftrightarrow>
     0 \<le> sl_pos s \<and> sl_pos s < int (length (sl_order s)) \<and>
     list_all (\<lambda>i. 0 \<le> i \<and> i < int (length (sl_tracks s))) (sl_order s)"

text \<open>Every index held by the filter view and by the play order names a track.\<close>

definition indices_ok :: "player \<Rightarrow> bool" where
  "indices_ok s \<longleftrightarrow>
     list_all (\<lambda>i. 0 \<le> i \<and> i < int (length (tracks s))) (visible_indices s) \<and>
     list_all (\<lambda>i. 0 \<le> i \<and> i < int (length (tracks s))) (play_order s)"

definition well_formed :: "player \<Rightarrow> bool" where
  "well_formed s \<longleftrightarrow> cursor_ok s \<and> indices_ok s"

text \<open>
  The sequencer operations of the full variant (each with the random draws it may use)
  and of the autoplay variant, and runs of them.
\<close>

datatype seq_op =
  Rebuild bool "nat \<Rightarrow> nat"
  | PlayNext
  | PlayPrev "nat \<Rightarrow> nat"
  | JumpTo int "nat \<Rightarrow> nat"
  | ShuffleChanged bool "nat \<Rightarrow> nat"
  | PlayNextAuto
  | PlayPrevAuto

fun seq_step :: "seq_op \<Rightarrow> player \<Rightarrow> py_error + player" where
  "seq_step (Rebuild keep rnd) s = rebuild_play_order keep rnd s"
| "seq_step PlayNext s = play_next s"
| "seq_step (PlayPrev rnd) s = play_prev rnd s"
| "seq_step (JumpTo idx rnd) s = play_by_track_index idx rnd s"
| "seq_step (ShuffleChanged b rnd) s = on_shuffle_changed b rnd s"
| "seq_step PlayNextAuto s = play_next_auto s"
| "seq_step PlayPrevAuto s = play_prev_auto s"

fun seq_run :: "seq_op list \<Rightarrow> player \<Rightarrow> py_error + player" where
  "seq_run [] s = Inr s"
| "seq_run (a # as) s = (case seq_step a s of Inl e \<Rightarrow> Inl e | Inr s' \<Rightarrow> seq_run as s')"

text \<open>Imports into the registry of the full variant, batch after batch.\<close>

fun import_all ::
  "'p host \<Rightarrow> ('p \<Rightarrow> string \<times> string \<times> string \<times> int) \<Rightarrow> 'p list list \<Rightarrow> track list \<Rightarrow> track list" where
  "import_all h probe [] ts = ts"
| "import_all h probe (ps # pss) ts = import_all h probe pss (fst (add_loop h probe ps ts 0))"


section \<open>Concrete registries and states\<close>

text \<open>Two tracks, as \<^verbatim>\<open>_read_metadata\<close> would build them.\<close>

definition two_tracks :: "track list" where
  "two_tracks =
     [\<lparr>path = ''/music/a.mp3'', title = ''Alpha'', artist = ''Ann'', album = ''Jazz Nights'',
       duration_ms = 1000\<rparr>,
      \<lparr>path = ''/music/b.mp3'', title = ''Beta'', artist = [], album = [], duration_ms = - 1\<rparr>]"

text \<open>
  Two random sources for \<open>py_shuffle\<close>: with \<open>draw_keep\<close> every step swaps an element
  with itself, with \<open>draw_front\<close> every step swaps with the first element.
\<close>

definition draw_keep :: "nat \<Rightarrow> nat" where
  "draw_keep i = i"

definition draw_front :: "nat \<Rightarrow> nat" where
  "draw_front i = 0"

text \<open>
  A window of the full variant with both tracks visible and shuffle switched on, before
  any rebuild, after a first rebuild and after a second one.
\<close>

definition shuffled_start :: player where
  "shuffled_start =
     \<lparr>tracks = two_tracks, visible_indices = [0, 1], play_order = [], play_pos = - 1,
      history = [], repeat_one = False, repeat_all = True, shuffle = True, search_text = [],
      engine_log = []\<rparr>"

definition shuffled_first :: player where
  "shuffled_first = shuffled_start\<lparr>play_order := [0, 1], play_pos := 0\<rparr>"

definition shuffled_second :: player where
  "shuffled_second = shuffled_start\<lparr>play_order := [1, 0], play_pos := 1\<rparr>"

text \<open>The same window with shuffle off and the second track current.\<close>

definition plain_second :: player where
  "plain_second =
     \<lparr>tracks = two_tracks, visible_indices = [0, 1], play_order = [0, 1], play_pos = 1,
      history = [], repeat_one = False, repeat_all = True, shuffle = False, search_text = [],
      engine_log = []\<rparr>"

text \<open>
  \<open>plain_first\<close>: as \<open>plain_second\<close> with the first track current. \<open>full_last\<close>: the
  second, last track current and Repeat All unchecked.
\<close>

definition plain_first :: player where
  "plain_first = plain_second\<lparr>play_pos := 0\<rparr>"

definition full_last :: player where
  "full_last = plain_second\<lparr>repeat_all := False\<rparr>"

text \<open>
  The full variant with both tracks in order, the first one current and Repeat 1 checked.
\<close>

definition repeat_one_start :: player where
  "repeat_one_start =
     \<lparr>tracks = two_tracks, visible_indices = [0, 1], play_order = [0, 1], play_pos = 0,
      history = [], repeat_one = True, repeat_all = True, shuffle = False, search_text = [],
      engine_log = []\<rparr>"

text \<open>
  Windows of the slick variant. \<open>slick_single\<close>: one track, playing, Repeat All unchecked.
  \<open>slick_last\<close>: two tracks, the last one playing, Repeat All unchecked.
  \<open>slick_first\<close>: two tracks, the first one playing, Repeat All checked.
\<close>

definition slick_single :: slick where
  "slick_single =
     \<lparr>sl_tracks = [\<lparr>path = ''/music/a.mp3'', title = ''Alpha'', artist = ''Ann'',
                     album = ''Jazz Nights'', duration_ms = 1000\<rparr>],
      sl_order = [0], sl_pos = 0, sl_shuffle = False, sl_repeat_all = False,
      sl_repeat_one = False, sl_search = [], sl_engine = []\<rparr>"

definition slick_last :: slick where
  "slick_last =
     \<lparr>sl_tracks = two_tracks, sl_order = [0, 1], sl_pos = 1, sl_shuffle = False,
      sl_repeat_all = False, sl_repeat_one = False, sl_search = [], sl_engine = []\<rparr>"

definition slick_first :: slick where
  "slick_first =
     \<lparr>sl_tracks = two_tracks, sl_order = [0, 1], sl_pos = 0, sl_shuffle = False,
      sl_repeat_all = True, sl_repeat_one = False, sl_search = [], sl_engine = []\<rparr>"

text \<open>
  A host where a path is its own string and every file exists, and a tag reader that
  finds no tags: the title is the stem, as both \<^verbatim>\<open>_add\<close> and
  \<^verbatim>\<open>_read_metadata\<close> arrange.
\<close>

definition plain_host :: "string host" where
  "plain_host =
     \<lparr>mk_path = (\<lambda>x. x), path_str = (\<lambda>p. p), path_stem = (\<lambda>p. p),
      path_exists = (\<lambda>p. True)\<rparr>"

definition plain_tags :: "string \<Rightarrow> (string \<times> string \<times> string \<times> int) option" where
  "plain_tags p = Some (p, [], [], - 1)"

definition plain_probe :: "string \<Rightarrow> string \<times> string \<times> string \<times> int" where
  "plain_probe p = ([], [], [], - 1)"

section \<open>Facts about the list operations\<close>

lemma list_index_None_iff: "list_index xs x = None \<longleftrightarrow> x \<notin> set xs"
  by (induction xs) auto

lemma list_index_Some_nth:
  "list_index xs x = Some i \<Longrightarrow> i < length xs \<and> xs ! i = x"
  by (induction xs arbitrary: i) (auto split: if_splits)

lemma list_index_nth_first:
  "list_index xs x = Some i \<Longrightarrow> list_index xs (xs ! i) = Some i"
proof -
  assume a: "list_index xs x = Some i"
  then have "xs ! i = x"
    by (simp add: list_index_Some_nth)
  with a show ?thesis by simp
qed

lemma list_index_mem: "x \<in> set xs \<Longrightarrow> \<exists>i. list_index xs x = Some i"
  using list_index_None_iff [of xs x] by (cases "list_index xs x") auto

lemma length_shuffle_steps: "length (shuffle_steps rnd k xs) = length xs"
  by (induction k arbitrary: xs) auto

lemma mset_shuffle_steps:
  "k < length xs \<Longrightarrow> mset (shuffle_steps rnd k xs) = mset xs"
proof (induction k arbitrary: xs)
  case 0
  show ?case by simp
next
  case (Suc k)
  let ?j = "rnd (Suc k) mod (Suc k + 1)"
  let ?ys = "xs[Suc k := xs ! ?j, ?j := xs ! Suc k]"
  have "?j < Suc k + 1"
    by (rule mod_less_divisor) simp
  then have j: "?j < length xs"
    using Suc.prems by linarith
  have "mset ?ys = mset xs"
    using mset_swap [OF j, of "Suc k"] Suc.prems by simp
  moreover have "mset (shuffle_steps rnd k ?ys) = mset ?ys"
    using Suc.prems by (intro Suc.IH) simp
  ultimately show ?case by simp
qed

lemma mset_py_shuffle: "mset (py_shuffle rnd xs) = mset xs"
proof (cases xs)
  case Nil
  then show ?thesis by (simp add: py_shuffle_def)
next
  case (Cons a as)
  then show ?thesis by (simp add: py_shuffle_def mset_shuffle_steps)
qed

lemma set_py_shuffle: "set (py_shuffle rnd xs) = set xs"
proof -
  have "set_mset (mset (py_shuffle rnd xs)) = set_mset (mset xs)"
    by (simp only: mset_py_shuffle)
  then show ?thesis by simp
qed

lemma py_shuffle_Nil_iff: "py_shuffle rnd xs = [] \<longleftrightarrow> xs = []"
proof -
  have "mset (py_shuffle rnd xs) = {#} \<longleftrightarrow> mset xs = {#}"
    by (simp only: mset_py_shuffle)
  then show ?thesis by simp
qed

lemma py_getitem_in_range:
  "0 \<le> i \<Longrightarrow> i < int (length xs) \<Longrightarrow> py_getitem xs i = Inr (xs ! nat i)"
  by (simp add: py_getitem_def)

lemma current_track_index_eq:
  "current_track_index s =
     Inr (if play_pos s < 0 \<or> int (length (play_order s)) \<le> play_pos s then - 1
          else play_order s ! nat (play_pos s))"
  by (simp add: current_track_index_def py_getitem_def)

lemma current_track_index_total: "\<exists>cur. current_track_index s = Inr cur"
  by (simp add: current_track_index_eq)

lemma current_track_index_engine_log [simp]:
  "current_track_index (s\<lparr>engine_log := l\<rparr>) = current_track_index s"
  by (simp add: current_track_index_def)

lemma current_track_index_history [simp]:
  "current_track_index (s\<lparr>history := l\<rparr>) = current_track_index s"
  by (simp add: current_track_index_def)

lemma current_in_order:
  "current_track_index s = Inr cur \<Longrightarrow> cur \<noteq> - 1 \<Longrightarrow> cur \<in> set (play_order s)"
  by (auto simp add: current_track_index_eq split: if_splits)

lemma current_at_index:
  "list_index xs x = Some i \<Longrightarrow>
   current_track_index (s\<lparr>play_order := xs, play_pos := int i\<rparr>) = Inr x"
  using list_index_Some_nth [of xs x i] by (simp add: current_track_index_eq)

lemma rebuild_play_order_eq:
  assumes "current_track_index s = Inr cur"
  shows "rebuild_play_order keep rnd s =
     (let base = (if shuffle s then py_shuffle rnd (visible_indices s) else visible_indices s)
      in Inr (s\<lparr>play_order := base,
                play_pos := (if base = [] then - 1
                             else if keep \<and> cur \<in> set base then int (the (list_index base cur))
                             else 0)\<rparr>))"
  using list_index_mem [of cur "py_shuffle rnd (visible_indices s)"]
    list_index_mem [of cur "visible_indices s"] assms
  by (auto simp add: rebuild_play_order_def Let_def)

lemma rebuild_play_order_total: "\<exists>s'. rebuild_play_order keep rnd s = Inr s'"
  using current_track_index_total [of s] by (auto simp add: rebuild_play_order_eq Let_def)

lemma rebuild_play_order_fields:
  assumes "rebuild_play_order keep rnd s = Inr s'"
  shows "tracks s' = tracks s" "visible_indices s' = visible_indices s"
    "history s' = history s" "shuffle s' = shuffle s" "repeat_one s' = repeat_one s"
    "repeat_all s' = repeat_all s" "engine_log s' = engine_log s" "search_text s' = search_text s"
    "play_order s' = (if shuffle s then py_shuffle rnd (visible_indices s) else visible_indices s)"
  using assms current_track_index_total [of s]
  by (auto simp add: rebuild_play_order_eq Let_def)

lemma rebuild_play_order_cursor:
  assumes "rebuild_play_order keep rnd s = Inr s'"
  shows "cursor_ok s'"
proof -
  obtain cur where cur: "current_track_index s = Inr cur"
    using current_track_index_total by blast
  let ?base = "if shuffle s then py_shuffle rnd (visible_indices s) else visible_indices s"
  have idx: "cur \<in> set ?base \<Longrightarrow> the (list_index ?base cur) < length ?base"
    using list_index_mem [of cur ?base] list_index_Some_nth [of ?base cur] by auto
  show ?thesis
    using assms idx unfolding rebuild_play_order_eq [OF cur] cursor_ok_def Let_def
    by (auto split: if_splits)
qed

lemma load_current_and_play_frame:
  "load_current_and_play s = Inr s' \<Longrightarrow> s' = s\<lparr>engine_log := engine_log s'\<rparr>"
  by (auto simp add: load_current_and_play_def current_track_index_eq
      split: if_splits sum.splits)

lemma cursor_ok_engine_log [simp]: "cursor_ok (s\<lparr>engine_log := l\<rparr>) = cursor_ok s"
  by (simp add: cursor_ok_def)

lemma cursor_ok_history [simp]: "cursor_ok (s\<lparr>history := l\<rparr>) = cursor_ok s"
  by (simp add: cursor_ok_def)

lemma indices_ok_engine_log [simp]: "indices_ok (s\<lparr>engine_log := l\<rparr>) = indices_ok s"
  by (simp add: indices_ok_def)

lemma indices_ok_history [simp]: "indices_ok (s\<lparr>history := l\<rparr>) = indices_ok s"
  by (simp add: indices_ok_def)

lemma indices_ok_play_pos [simp]: "indices_ok (s\<lparr>play_pos := l\<rparr>) = indices_ok s"
  by (simp add: indices_ok_def)

lemma load_current_and_play_cursor:
  "load_current_and_play s = Inr s' \<Longrightarrow> cursor_ok s \<Longrightarrow> cursor_ok s'"
  using load_current_and_play_frame [of s s'] cursor_ok_engine_log [where s = s and l = "engine_log s'"]
  by simp

lemma load_current_and_play_indices:
  "load_current_and_play s = Inr s' \<Longrightarrow> indices_ok s \<Longrightarrow> indices_ok s'"
  using load_current_and_play_frame [of s s'] indices_ok_engine_log [where s = s and l = "engine_log s'"]
  by simp

lemma load_current_and_play_total:
  assumes "indices_ok s"
  shows "\<exists>s'. load_current_and_play s = Inr s'"
proof (cases "play_pos s < 0 \<or> int (length (play_order s)) \<le> play_pos s")
  case True
  then show ?thesis
    by (simp add: load_current_and_play_def current_track_index_eq)
next
  case False
  then have "nat (play_pos s) < length (play_order s)" by auto
  then have "play_order s ! nat (play_pos s) \<in> set (play_order s)" by simp
  then have "0 \<le> play_order s ! nat (play_pos s) \<and>
      play_order s ! nat (play_pos s) < int (length (tracks s))"
    using assms by (simp add: indices_ok_def list_all_iff)
  then show ?thesis
    using False by (simp add: load_current_and_play_def current_track_index_eq py_getitem_in_range)
qed

lemma py_strip_whitespace: "list_all py_isspace query \<Longrightarrow> py_strip query = []"
proof -
  assume "list_all py_isspace query"
  then have "dropWhile py_isspace query = []"
    by (simp add: list_all_iff)
  then have "py_strip query = rev (dropWhile py_isspace (rev []))"
    unfolding py_strip_def by (simp only:)
  then show ?thesis
    by simp
qed

lemma filter_loop_empty_query:
  "filter_loop [] i ts = map (\<lambda>k. i + int k) [0..<length ts]"
proof (induction ts arbitrary: i)
  case Nil
  show ?case by simp
next
  case (Cons t ts)
  have "map (\<lambda>k. i + int k) [0..<length (t # ts)] =
          i # map (\<lambda>k. i + int k) (map Suc [0..<length ts])"
    by (simp add: upt_conv_Cons map_Suc_upt del: upt_Suc)
  also have "map (\<lambda>k. i + int k) (map Suc [0..<length ts]) =
          map (\<lambda>k. (i + 1) + int k) [0..<length ts]"
    by simp
  finally show ?case
    using Cons.IH [of "i + 1"] by simp
qed

lemma list_index_hd: "xs \<noteq> [] \<Longrightarrow> list_index xs (xs ! 0) = Some 0"
  by (cases xs) simp_all

lemma list_index_Some_mem: "list_index xs x = Some i \<Longrightarrow> x \<in> set xs"
  using list_index_None_iff [of xs x] by auto

lemma rebuild_empty:
  assumes "order_base rnd s = []"
  shows "rebuild_play_order keep rnd s = Inr (s\<lparr>play_order := [], play_pos := - 1\<rparr>)"
proof -
  obtain cur where cur: "current_track_index s = Inr cur"
    using current_track_index_total by blast
  show ?thesis
    using assms unfolding rebuild_play_order_def cur order_base_def Let_def
    by simp
qed

lemma rebuild_found:
  assumes "current_track_index s = Inr cur" and "list_index (order_base rnd s) cur = Some i"
  shows "rebuild_play_order True rnd s =
           Inr (s\<lparr>play_order := order_base rnd s, play_pos := int i\<rparr>)"
proof -
  have mem: "cur \<in> set (order_base rnd s)"
    using assms(2) by (rule list_index_Some_mem)
  then have ne: "order_base rnd s \<noteq> []"
    by auto
  show ?thesis
    using mem ne assms(2) unfolding rebuild_play_order_def assms(1) order_base_def Let_def
    by simp
qed

lemma rebuild_reset:
  assumes "current_track_index s = Inr cur" and "order_base rnd s \<noteq> []"
    and "\<not> keep \<or> cur \<notin> set (order_base rnd s)"
  shows "rebuild_play_order keep rnd s =
           Inr (s\<lparr>play_order := order_base rnd s, play_pos := 0\<rparr>)"
  using assms(2,3) unfolding rebuild_play_order_def assms(1) order_base_def Let_def
  by auto


lemma set_order_base: "set (order_base rnd s) = set (visible_indices s)"
  by (simp add: order_base_def set_py_shuffle)

lemma mset_order_base: "mset (order_base rnd s) = mset (visible_indices s)"
  by (simp add: order_base_def mset_py_shuffle)

lemma order_base_Nil_iff: "order_base rnd s = [] \<longleftrightarrow> visible_indices s = []"
  by (simp add: order_base_def py_shuffle_Nil_iff)

lemma order_base_update [simp]:
  "order_base rnd (s\<lparr>play_order := xs, play_pos := n\<rparr>) = order_base rnd s"
  by (simp add: order_base_def)

lemma order_base_plain: "\<not> shuffle s \<Longrightarrow> order_base rnd s = visible_indices s"
  by (simp add: order_base_def)



lemma rebuild_result_empty:
  assumes "rebuild_play_order keep rnd s = Inr s1" and "order_base rnd s = []"
  shows "s1 = s\<lparr>play_order := [], play_pos := - 1\<rparr>"
proof -
  have "rebuild_play_order keep rnd s = Inr (s\<lparr>play_order := [], play_pos := - 1\<rparr>)"
    using assms(2) by (rule rebuild_empty)
  with assms(1) show ?thesis
    by (simp only: sum.inject)
qed

lemma rebuild_result_found:
  assumes "rebuild_play_order True rnd s = Inr s1" and "current_track_index s = Inr cur"
    and "list_index (order_base rnd s) cur = Some i"
  shows "s1 = s\<lparr>play_order := order_base rnd s, play_pos := int i\<rparr>"
proof -
  have "rebuild_play_order True rnd s =
          Inr (s\<lparr>play_order := order_base rnd s, play_pos := int i\<rparr>)"
    using assms(2,3) by (rule rebuild_found)
  with assms(1) show ?thesis
    by (simp only: sum.inject)
qed

lemma rebuild_result_reset:
  assumes "rebuild_play_order keep rnd s = Inr s1" and "current_track_index s = Inr cur"
    and "order_base rnd s \<noteq> []" and "\<not> keep \<or> cur \<notin> set (order_base rnd s)"
  shows "s1 = s\<lparr>play_order := order_base rnd s, play_pos := 0\<rparr>"
proof -
  have "rebuild_play_order keep rnd s =
          Inr (s\<lparr>play_order := order_base rnd s, play_pos := 0\<rparr>)"
    using assms(2,3,4) by (rule rebuild_reset)
  with assms(1) show ?thesis
    by (simp only: sum.inject)
qed

lemma rebuild_keeps_position:
  assumes "rebuild_play_order True rnd1 s = Inr s1" and "\<not> shuffle s"
  shows "rebuild_play_order True rnd2 s1 = Inr s1"
proof -
  obtain cur where cur: "current_track_index s = Inr cur"
    using current_track_index_total by blast
  let ?base = "visible_indices s"
  have b1: "order_base rnd1 s = ?base"
    using assms(2) by (rule order_base_plain)
  have b: "order_base rnd2 (s\<lparr>play_order := xs, play_pos := n\<rparr>) = ?base" for xs n
    using assms(2) by (simp add: order_base_def)
  show ?thesis
  proof (cases "?base = []")
    case True
    have s1: "s1 = s\<lparr>play_order := [], play_pos := - 1\<rparr>"
      using assms(1) by (rule rebuild_result_empty) (simp add: b1 True)
    have "order_base rnd2 s1 = []"
      unfolding s1 b by (rule True)
    then have "rebuild_play_order True rnd2 s1 = Inr (s1\<lparr>play_order := [], play_pos := - 1\<rparr>)"
      by (rule rebuild_empty)
    moreover have "s1\<lparr>play_order := [], play_pos := - 1\<rparr> = s1"
      unfolding s1 by simp
    ultimately show ?thesis
      by (simp only:)
  next
    case ne: False
    show ?thesis
    proof (cases "cur \<in> set ?base")
      case True
      from list_index_mem [OF True] obtain i where i: "list_index ?base cur = Some i" ..
      have s1: "s1 = s\<lparr>play_order := ?base, play_pos := int i\<rparr>"
        using rebuild_result_found [OF assms(1) cur, of i] i unfolding b1 by (simp only:)
      have c1: "current_track_index s1 = Inr cur"
        unfolding s1 using i by (rule current_at_index)
      have i2: "list_index (order_base rnd2 s1) cur = Some i"
        unfolding s1 b by (rule i)
      have "rebuild_play_order True rnd2 s1 =
              Inr (s1\<lparr>play_order := order_base rnd2 s1, play_pos := int i\<rparr>)"
        using c1 i2 by (rule rebuild_found)
      moreover have "s1\<lparr>play_order := order_base rnd2 s1, play_pos := int i\<rparr> = s1"
        unfolding s1 b by simp
      ultimately show ?thesis
        by (simp only:)
    next
      case False
      have "order_base rnd1 s \<noteq> []"
        using ne b1 by simp
      moreover have "\<not> True \<or> cur \<notin> set (order_base rnd1 s)"
        using False b1 by simp
      ultimately have "s1 = s\<lparr>play_order := order_base rnd1 s, play_pos := 0\<rparr>"
        by (rule rebuild_result_reset [OF assms(1) cur])
      then have s1: "s1 = s\<lparr>play_order := ?base, play_pos := 0\<rparr>"
        unfolding b1 .
      have i: "list_index ?base (?base ! 0) = Some 0"
        using ne by (rule list_index_hd)
      have c1: "current_track_index s1 = Inr (?base ! 0)"
        unfolding s1 using current_at_index [OF i, of s] by simp
      have i2: "list_index (order_base rnd2 s1) (?base ! 0) = Some 0"
        unfolding s1 b by (rule i)
      have "rebuild_play_order True rnd2 s1 =
              Inr (s1\<lparr>play_order := order_base rnd2 s1, play_pos := int 0\<rparr>)"
        using c1 i2 by (rule rebuild_found)
      moreover have "s1\<lparr>play_order := order_base rnd2 s1, play_pos := int 0\<rparr> = s1"
        unfolding s1 b by simp
      ultimately show ?thesis
        by (simp only:)
    qed
  qed
qed

lemma rebuild_play_order_ok: "rebuild_play_order keep rnd s = Inr s1 \<Longrightarrow> play_order s1 = order_base rnd s"
  using rebuild_play_order_fields(9) [of keep rnd s s1] by (simp add: order_base_def)

lemma rebuild_keeps_current:
  assumes "rebuild_play_order keep rnd1 s = Inr s1"
    and "rebuild_play_order True rnd2 s1 = Inr s2"
  shows "current_track_index s2 = current_track_index s1"
proof -
  have ok: "cursor_ok s1"
    using assms(1) by (rule rebuild_play_order_cursor)
  have vis: "visible_indices s1 = visible_indices s"
    by (rule rebuild_play_order_fields(2) [OF assms(1)])
  have o1: "play_order s1 = order_base rnd1 s"
    using assms(1) by (rule rebuild_play_order_ok)
  have o2: "play_order s2 = order_base rnd2 s1"
    using assms(2) by (rule rebuild_play_order_ok)
  show ?thesis
  proof (cases "play_pos s1 = - 1")
    case True
    have "play_order s1 = []"
    proof (rule ccontr)
      assume ne: "play_order s1 \<noteq> []"
      obtain cur where cur: "current_track_index s = Inr cur"
        using current_track_index_total by blast
      have "0 \<le> play_pos s1"
        using assms(1) ne unfolding rebuild_play_order_eq [OF cur] Let_def
        by (auto split: if_splits)
      with True show False by simp
    qed
    then have "visible_indices s = []"
      using o1 by (simp add: order_base_Nil_iff)
    then have "play_order s2 = []"
      using o2 vis by (simp add: order_base_Nil_iff)
    then have "current_track_index s2 = Inr (- 1)"
      by (simp add: current_track_index_eq)
    moreover have "current_track_index s1 = Inr (- 1)"
      using True by (simp add: current_track_index_eq)
    ultimately show ?thesis by simp
  next
    case False
    then have rng: "0 \<le> play_pos s1" "play_pos s1 < int (length (play_order s1))"
      using ok by (simp_all add: cursor_ok_def)
    let ?c = "play_order s1 ! nat (play_pos s1)"
    have c1: "current_track_index s1 = Inr ?c"
      using rng by (simp add: current_track_index_eq)
    have "nat (play_pos s1) < length (play_order s1)"
      using rng by simp
    then have "?c \<in> set (play_order s1)"
      by (rule nth_mem)
    then have "?c \<in> set (order_base rnd2 s1)"
      by (simp add: o1 set_order_base vis)
    from list_index_mem [OF this] obtain i
      where i: "list_index (order_base rnd2 s1) ?c = Some i" ..
    have "s2 = s1\<lparr>play_order := order_base rnd2 s1, play_pos := int i\<rparr>"
      using assms(2) c1 i by (rule rebuild_result_found)
    then have "current_track_index s2 = Inr ?c"
      using current_at_index [OF i, of s1] by (simp only:)
    with c1 show ?thesis by simp
  qed
qed

lemma load_current_and_play_fields:
  assumes "load_current_and_play s = Inr s'"
  shows "tracks s' = tracks s" "visible_indices s' = visible_indices s"
    "play_order s' = play_order s" "play_pos s' = play_pos s" "history s' = history s"
    "repeat_one s' = repeat_one s" "repeat_all s' = repeat_all s" "shuffle s' = shuffle s"
    "search_text s' = search_text s"
  using assms
  by (auto simp add: load_current_and_play_def current_track_index_eq
      split: if_splits sum.splits)

lemma load_current_and_play_current:
  assumes "load_current_and_play s = Inr s'"
  shows "current_track_index s' = current_track_index s"
  using load_current_and_play_fields(3,4) [OF assms]
  by (simp add: current_track_index_eq)

lemma load_current_and_play_log:
  assumes "load_current_and_play s = Inr s'"
  shows "engine_log s' = engine_log s \<or>
         (\<exists>p. engine_log s' = engine_log s @ [LoadPath p, Play])"
  using assms
  by (auto simp add: load_current_and_play_def current_track_index_eq
      split: if_splits sum.splits)

lemma push_current_fields [simp]:
  "tracks (push_current s) = tracks s" "visible_indices (push_current s) = visible_indices s"
  "play_order (push_current s) = play_order s" "play_pos (push_current s) = play_pos s"
  "repeat_one (push_current s) = repeat_one s" "repeat_all (push_current s) = repeat_all s"
  "shuffle (push_current s) = shuffle s" "engine_log (push_current s) = engine_log s"
  by (simp_all add: push_current_def current_track_index_eq)

lemma push_current_history:
  "history (push_current s) =
     (if play_pos s < 0 \<or> int (length (play_order s)) \<le> play_pos s
         \<or> play_order s ! nat (play_pos s) = - 1
      then history s else history s @ [play_order s ! nat (play_pos s)])"
  by (simp add: push_current_def current_track_index_eq)

lemma cursor_ok_push_current [simp]: "cursor_ok (push_current s) = cursor_ok s"
  by (simp add: cursor_ok_def)

lemma indices_ok_push_current [simp]: "indices_ok (push_current s) = indices_ok s"
  by (simp add: indices_ok_def)

lemma play_next_unfold:
  assumes "play_order s \<noteq> []"
  shows "play_next s =
     (if repeat_one s then load_current_and_play (push_current s)
      else if play_pos s + 1 \<ge> int (length (play_order s)) then
        (if repeat_all s then load_current_and_play ((push_current s)\<lparr>play_pos := 0\<rparr>)
         else Inr ((push_current s)\<lparr>engine_log := engine_log s @ [Stop]\<rparr>))
      else load_current_and_play ((push_current s)\<lparr>play_pos := play_pos s + 1\<rparr>))"
  using assms
  by (simp add: play_next_def push_current_def current_track_index_eq Let_def)

lemma play_next_auto_unfold:
  assumes "play_order s \<noteq> []"
  shows "play_next_auto s =
     (if repeat_one s then load_current_and_play s
      else if play_pos s + 1 \<ge> int (length (play_order s)) then
        (if repeat_all s then load_current_and_play ((push_current s)\<lparr>play_pos := 0\<rparr>)
         else Inr ((push_current s)\<lparr>engine_log := engine_log s @ [Stop]\<rparr>))
      else load_current_and_play ((push_current s)\<lparr>play_pos := play_pos s + 1\<rparr>))"
  using assms
  by (simp add: play_next_auto_def push_current_def current_track_index_eq Let_def)

lemma same_result: "f = Inr a \<Longrightarrow> f = Inr b \<Longrightarrow> b = a"
  by simp

lemma well_formed_engine_log [simp]: "well_formed (s\<lparr>engine_log := l\<rparr>) = well_formed s"
  by (simp add: well_formed_def)

lemma well_formed_history [simp]: "well_formed (s\<lparr>history := l\<rparr>) = well_formed s"
  by (simp add: well_formed_def)

lemma well_formed_push_current [simp]: "well_formed (push_current s) = well_formed s"
  by (simp add: well_formed_def)

lemma well_formed_set_pos:
  assumes "well_formed s" and "0 \<le> n" and "n < int (length (play_order s))"
  shows "well_formed (s\<lparr>play_pos := n\<rparr>)"
  using assms by (auto simp add: well_formed_def cursor_ok_def)

lemma load_well_formed:
  assumes "well_formed X"
  shows "\<exists>s'. load_current_and_play X = Inr s' \<and> well_formed s'"
proof -
  have i: "indices_ok X" and c: "cursor_ok X"
    using assms by (simp_all add: well_formed_def)
  from load_current_and_play_total [OF i] obtain s' where s': "load_current_and_play X = Inr s'" ..
  have "cursor_ok s'"
    using s' c by (rule load_current_and_play_cursor)
  moreover have "indices_ok s'"
    using s' i by (rule load_current_and_play_indices)
  ultimately have "well_formed s'"
    by (simp add: well_formed_def)
  with s' show ?thesis
    by (intro exI conjI)
qed

lemma well_formed_pos_bounds:
  assumes "well_formed s"
  shows "- 1 \<le> play_pos s" "play_pos s < int (length (play_order s))"
  using assms by (simp_all add: well_formed_def cursor_ok_def)

lemma play_next_well_formed:
  assumes "well_formed s"
  shows "\<exists>s'. play_next s = Inr s' \<and> well_formed s'"
proof (cases "play_order s = []")
  case True
  then have "play_next s = Inr s"
    by (simp add: play_next_def)
  with assms show ?thesis
    by (intro exI conjI)
next
  case ne: False
  note u = play_next_unfold [OF ne]
  note b = well_formed_pos_bounds [OF assms]
  have p: "well_formed (push_current s)"
    using assms by simp
  show ?thesis
  proof (cases "repeat_one s")
    case True
    then show ?thesis
      using load_well_formed [OF p] by (simp add: u)
  next
    case r1: False
    show ?thesis
    proof (cases "play_pos s + 1 \<ge> int (length (play_order s))")
      case over: True
      show ?thesis
      proof (cases "repeat_all s")
        case True
        have "well_formed ((push_current s)\<lparr>play_pos := 0\<rparr>)"
          using p ne by (intro well_formed_set_pos) simp_all
        from load_well_formed [OF this] show ?thesis
          using r1 over True by (simp add: u)
      next
        case False
        then show ?thesis
          using r1 over p by (simp add: u)
      qed
    next
      case False
      then have "well_formed ((push_current s)\<lparr>play_pos := play_pos s + 1\<rparr>)"
        using p b by (intro well_formed_set_pos) simp_all
      from load_well_formed [OF this] show ?thesis
        using r1 False by (simp add: u)
    qed
  qed
qed

lemma play_next_auto_well_formed:
  assumes "well_formed s"
  shows "\<exists>s'. play_next_auto s = Inr s' \<and> well_formed s'"
proof (cases "play_order s = []")
  case True
  then have "play_next_auto s = Inr s"
    by (simp add: play_next_auto_def)
  with assms show ?thesis
    by (intro exI conjI)
next
  case ne: False
  note u = play_next_auto_unfold [OF ne]
  note b = well_formed_pos_bounds [OF assms]
  have p: "well_formed (push_current s)"
    using assms by simp
  show ?thesis
  proof (cases "repeat_one s")
    case True
    then show ?thesis
      using load_well_formed [OF assms] by (simp add: u)
  next
    case r1: False
    show ?thesis
    proof (cases "play_pos s + 1 \<ge> int (length (play_order s))")
      case over: True
      show ?thesis
      proof (cases "repeat_all s")
        case True
        have "well_formed ((push_current s)\<lparr>play_pos := 0\<rparr>)"
          using p ne by (intro well_formed_set_pos) simp_all
        from load_well_formed [OF this] show ?thesis
          using r1 over True by (simp add: u)
      next
        case False
        then show ?thesis
          using r1 over p by (simp add: u)
      qed
    next
      case False
      then have "well_formed ((push_current s)\<lparr>play_pos := play_pos s + 1\<rparr>)"
        using p b by (intro well_formed_set_pos) simp_all
      from load_well_formed [OF this] show ?thesis
        using r1 False by (simp add: u)
    qed
  qed
qed

lemma indices_ok_order:
  assumes "indices_ok s" and "set xs = set (visible_indices s)"
  shows "indices_ok (s\<lparr>play_order := xs, play_pos := n\<rparr>)"
  using assms by (simp add: indices_ok_def list_all_iff)

lemma rebuild_well_formed:
  assumes "indices_ok s"
  shows "\<exists>s'. rebuild_play_order keep rnd s = Inr s' \<and> well_formed s'"
proof -
  from rebuild_play_order_total obtain s' where s': "rebuild_play_order keep rnd s = Inr s'" ..
  have c: "cursor_ok s'"
    using s' by (rule rebuild_play_order_cursor)
  have "play_order s' = order_base rnd s"
    using s' by (rule rebuild_play_order_ok)
  then have "set (play_order s') = set (visible_indices s)"
    by (simp add: set_order_base)
  then have "indices_ok s'"
    using assms rebuild_play_order_fields(1,2) [OF s']
    by (simp add: indices_ok_def list_all_iff)
  with c have "well_formed s'"
    by (simp add: well_formed_def)
  with s' show ?thesis
    by (intro exI conjI)
qed

lemma well_formed_indices: "well_formed s \<Longrightarrow> indices_ok s"
  by (simp add: well_formed_def)

lemma jump_to_offset:
  assumes "well_formed s" and "idx \<in> set (play_order s)"
  shows "\<exists>s'. (case list_index (play_order s) idx of
                 None \<Rightarrow> Inl ValueError
               | Some i \<Rightarrow> load_current_and_play (s\<lparr>play_pos := int i\<rparr>)) = Inr s' \<and>
              well_formed s'"
proof -
  from list_index_mem [OF assms(2)] obtain i where i: "list_index (play_order s) idx = Some i" ..
  have "i < length (play_order s)"
    using list_index_Some_nth [OF i] by simp
  then have "well_formed (s\<lparr>play_pos := int i\<rparr>)"
    using assms(1) by (intro well_formed_set_pos) simp_all
  from load_well_formed [OF this] show ?thesis
    by (simp add: i)
qed

lemma play_by_track_index_well_formed:
  assumes "well_formed s"
  shows "\<exists>s'. play_by_track_index idx rnd s = Inr s' \<and> well_formed s'"
proof (cases "idx < 0 \<or> idx \<ge> int (length (tracks s))")
  case True
  then have "play_by_track_index idx rnd s = Inr s"
    by (simp add: play_by_track_index_def)
  with assms show ?thesis
    by (intro exI conjI)
next
  case rng: False
  show ?thesis
  proof (cases "idx \<in> set (play_order s)")
    case True
    then show ?thesis
      using rng jump_to_offset [OF assms True] by (simp add: play_by_track_index_def)
  next
    case False
    from rebuild_well_formed [OF well_formed_indices [OF assms], of False rnd]
    obtain s1 where s1: "rebuild_play_order False rnd s = Inr s1" and w1: "well_formed s1"
      by (elim exE conjE)
    show ?thesis
    proof (cases "idx \<in> set (play_order s1)")
      case True
      then show ?thesis
        using rng False s1 jump_to_offset [OF w1 True] by (simp add: play_by_track_index_def)
    next
      case n1: False
      then show ?thesis
        using rng False s1 load_well_formed [OF w1] by (simp add: play_by_track_index_def)
    qed
  qed
qed

lemma step_back_well_formed:
  assumes "well_formed s" and "play_order s \<noteq> []"
  shows "\<exists>s'. step_back s = Inr s' \<and> well_formed s'"
proof -
  note b = well_formed_pos_bounds [OF assms(1)]
  let ?n = "if play_pos s - 1 < 0
            then (if repeat_all s then int (length (play_order s)) - 1 else 0)
            else play_pos s - 1"
  have "0 \<le> ?n" "?n < int (length (play_order s))"
    using b assms(2) by auto
  then have "well_formed (s\<lparr>play_pos := ?n\<rparr>)"
    using assms(1) by (intro well_formed_set_pos)
  from load_well_formed [OF this] show ?thesis
    by (simp add: step_back_def Let_def)
qed

lemma play_prev_no_history:
  assumes "play_order s \<noteq> []" and "history s = []"
  shows "play_prev rnd s = step_back s" "play_prev_auto s = step_back s"
  using assms by (simp_all add: play_prev_def play_prev_auto_def step_back_def Let_def)

lemma play_prev_well_formed:
  assumes "well_formed s"
  shows "\<exists>s'. play_prev rnd s = Inr s' \<and> well_formed s'"
proof (cases "play_order s = []")
  case True
  then have "play_prev rnd s = Inr s"
    by (simp add: play_prev_def)
  with assms show ?thesis
    by (intro exI conjI)
next
  case ne: False
  show ?thesis
  proof (cases "history s = []")
    case True
    then show ?thesis
      using step_back_well_formed [OF assms ne] play_prev_no_history(1) [OF ne True] by simp
  next
    case False
    have "well_formed (s\<lparr>history := butlast (history s)\<rparr>)"
      using assms by simp
    from play_by_track_index_well_formed [OF this] show ?thesis
      using ne False by (simp add: play_prev_def)
  qed
qed

lemma play_prev_auto_well_formed:
  assumes "well_formed s"
  shows "\<exists>s'. play_prev_auto s = Inr s' \<and> well_formed s'"
proof (cases "play_order s = []")
  case True
  then have "play_prev_auto s = Inr s"
    by (simp add: play_prev_auto_def)
  with assms show ?thesis
    by (intro exI conjI)
next
  case ne: False
  show ?thesis
  proof (cases "history s = []")
    case True
    then show ?thesis
      using step_back_well_formed [OF assms ne] play_prev_no_history(2) [OF ne True] by simp
  next
    case h: False
    let ?s1 = "s\<lparr>history := butlast (history s)\<rparr>"
    have w1: "well_formed ?s1"
      using assms by simp
    have ne1: "play_order ?s1 \<noteq> []"
      using ne by simp
    show ?thesis
    proof (cases "last (history s) \<in> set (play_order s)")
      case True
      then have "last (history s) \<in> set (play_order ?s1)"
        by simp
      from jump_to_offset [OF w1 this] show ?thesis
        using ne h True by (simp add: play_prev_auto_def Let_def)
    next
      case False
      then show ?thesis
        using ne h step_back_well_formed [OF w1 ne1] by (simp add: play_prev_auto_def Let_def)
    qed
  qed
qed

lemma on_shuffle_changed_well_formed:
  assumes "well_formed s"
  shows "\<exists>s'. on_shuffle_changed b rnd s = Inr s' \<and> well_formed s'"
proof -
  have "indices_ok (s\<lparr>shuffle := b, history := []\<rparr>)"
    using assms by (simp add: well_formed_def indices_ok_def)
  from rebuild_well_formed [OF this] show ?thesis
    by (simp add: on_shuffle_changed_def)
qed

lemma seq_step_well_formed:
  assumes "well_formed s"
  shows "\<exists>s'. seq_step a s = Inr s' \<and> well_formed s'"
proof (cases a)
  case (Rebuild keep rnd)
  then show ?thesis
    using rebuild_well_formed [OF well_formed_indices [OF assms]] by simp
next
  case PlayNext
  then show ?thesis
    using play_next_well_formed [OF assms] by simp
next
  case (PlayPrev rnd)
  then show ?thesis
    using play_prev_well_formed [OF assms] by simp
next
  case (JumpTo idx rnd)
  then show ?thesis
    using play_by_track_index_well_formed [OF assms] by simp
next
  case (ShuffleChanged b rnd)
  then show ?thesis
    using on_shuffle_changed_well_formed [OF assms] by simp
next
  case PlayNextAuto
  then show ?thesis
    using play_next_auto_well_formed [OF assms] by simp
next
  case PlayPrevAuto
  then show ?thesis
    using play_prev_auto_well_formed [OF assms] by simp
qed

lemma seq_run_well_formed:
  "well_formed s \<Longrightarrow> \<exists>s'. seq_run as s = Inr s' \<and> well_formed s'"
proof (induction as arbitrary: s)
  case Nil
  then show ?case by simp
next
  case (Cons a as)
  from seq_step_well_formed [OF Cons.prems, of a]
  obtain s1 where s1: "seq_step a s = Inr s1" and w1: "well_formed s1"
    by (elim exE conjE)
  from Cons.IH [OF w1] show ?case
    by (simp add: s1)
qed

lemma well_formed_init: "well_formed init_player"
  by (simp add: well_formed_def cursor_ok_def indices_ok_def init_player_def)

text \<open>The autoplay variant under Repeat 1: nothing but the engine log changes.\<close>

lemma play_next_auto_repeat_one:
  assumes "repeat_one s" and "play_order s \<noteq> []" and "play_next_auto s = Inr s'"
  shows "play_pos s' = play_pos s" "history s' = history s" "play_order s' = play_order s"
    "current_track_index s' = current_track_index s"
proof -
  have "play_next_auto s = load_current_and_play s"
    using assms(1,2) by (simp add: play_next_auto_def)
  then have l: "load_current_and_play s = Inr s'"
    using assms(3) by simp
  show "play_pos s' = play_pos s" "history s' = history s" "play_order s' = play_order s"
    using load_current_and_play_fields [OF l] by simp_all
  show "current_track_index s' = current_track_index s"
    using l by (rule load_current_and_play_current)
qed

text \<open>
  The full and the autoplay variant at the last offset without Repeat All and Repeat 1:
  the engine is stopped and the cursor stays.
\<close>

lemma play_next_stops_at_end:
  assumes "\<not> repeat_all s" and "\<not> repeat_one s" and "play_order s \<noteq> []"
    and "play_pos s = int (length (play_order s)) - 1"
  shows "play_next s = Inr ((push_current s)\<lparr>engine_log := engine_log s @ [Stop]\<rparr>)"
    and "play_next_auto s = Inr ((push_current s)\<lparr>engine_log := engine_log s @ [Stop]\<rparr>)"
    and "play_pos ((push_current s)\<lparr>engine_log := engine_log s @ [Stop]\<rparr>) = play_pos s"
  using assms by (simp_all add: play_next_unfold play_next_auto_unfold)

text \<open>
  The full and the autoplay variant going back with an empty history: the cursor is
  decremented, and below 0 it wraps under Repeat All and is clamped to 0 otherwise.
\<close>

lemma step_back_cursor:
  assumes "step_back s = Inr s'"
  shows "play_pos s' =
           (if play_pos s - 1 < 0
            then (if repeat_all s then int (length (play_order s)) - 1 else 0)
            else play_pos s - 1)"
  using load_current_and_play_fields(4) [of _ s'] assms
  by (simp add: step_back_def Let_def)

lemma play_prev_cursor:
  assumes "play_order s \<noteq> []" and "history s = []"
  shows "play_prev rnd s = Inr s' \<Longrightarrow>
           play_pos s' =
             (if play_pos s - 1 < 0
              then (if repeat_all s then int (length (play_order s)) - 1 else 0)
              else play_pos s - 1)"
    and "play_prev_auto s = Inr s' \<Longrightarrow>
           play_pos s' =
             (if play_pos s - 1 < 0
              then (if repeat_all s then int (length (play_order s)) - 1 else 0)
              else play_pos s - 1)"
  using play_prev_no_history [OF assms] step_back_cursor [of s s'] by simp_all

lemma slick_play_total:
  assumes "slick_playable s"
  shows "slick_play s =
           Inr (s\<lparr>sl_engine := sl_engine s @
                  [LoadPath (path (sl_tracks s ! nat (sl_order s ! nat (sl_pos s)))), Play]\<rparr>)"
proof -
  have rng: "0 \<le> sl_pos s" "sl_pos s < int (length (sl_order s))"
    using assms by (simp_all add: slick_playable_def)
  then have "nat (sl_pos s) < length (sl_order s)"
    by simp
  then have "sl_order s ! nat (sl_pos s) \<in> set (sl_order s)"
    by (rule nth_mem)
  then have "0 \<le> sl_order s ! nat (sl_pos s) \<and>
      sl_order s ! nat (sl_pos s) < int (length (sl_tracks s))"
    using assms by (simp add: slick_playable_def list_all_iff)
  then show ?thesis
    using rng by (simp add: slick_play_def py_getitem_in_range)
qed

lemma slick_play_pos: "slick_play s = Inr s' \<Longrightarrow> sl_pos s' = sl_pos s \<and> sl_order s' = sl_order s"
  by (auto simp add: slick_play_def split: sum.splits)

lemma slick_next_at_end:
  assumes "\<not> sl_repeat_all s" and "\<not> sl_repeat_one s" and "sl_order s \<noteq> []"
    and "sl_pos s = int (length (sl_order s)) - 1"
  shows "slick_next s = Inr (s\<lparr>sl_pos := sl_pos s + 1\<rparr>)"
  using assms by (simp add: slick_next_def Let_def)

lemma slick_prev_pos:
  assumes "sl_order s \<noteq> []" and "slick_prev s = Inr s'"
  shows "sl_pos s' = max 0 (sl_pos s - 1)"
proof -
  have "slick_play (s\<lparr>sl_pos := max 0 (sl_pos s - 1)\<rparr>) = Inr s'"
    using assms by (simp add: slick_prev_def)
  from slick_play_pos [OF this] show ?thesis
    by simp
qed

lemma slick_prev_total:
  assumes "slick_playable s"
  shows "\<exists>s'. slick_prev s = Inr s'"
proof -
  have ne: "sl_order s \<noteq> []"
    using assms by (auto simp add: slick_playable_def)
  have "slick_playable (s\<lparr>sl_pos := max 0 (sl_pos s - 1)\<rparr>)"
    using assms by (auto simp add: slick_playable_def)
  from slick_play_total [OF this] show ?thesis
    using ne by (simp add: slick_prev_def)
qed

lemma read_metadata_path [simp]: "path (read_metadata h probe p) = path_str h p"
  by (cases "probe p") (simp add: read_metadata_def)

lemma add_loop_skips_known:
  "list_ex (\<lambda>t. mk_path h (path t) = p) ts \<Longrightarrow>
   add_loop h probe (p # ps) ts n = add_loop h probe ps ts n"
  by simp

lemma add_loop_distinct:
  assumes rt: "\<forall>p. mk_path h (path_str h p) = p"
  shows "distinct (map (\<lambda>t. mk_path h (path t)) ts) \<Longrightarrow>
         distinct (map (\<lambda>t. mk_path h (path t)) (fst (add_loop h probe ps ts n)))"
proof (induction ps arbitrary: ts n)
  case Nil
  then show ?case by simp
next
  case (Cons p ps)
  show ?case
  proof (cases "\<not> path_exists h p \<or> list_ex (\<lambda>t. mk_path h (path t) = p) ts")
    case True
    then have "add_loop h probe (p # ps) ts n = add_loop h probe ps ts n"
      by auto
    then show ?thesis
      using Cons.IH [OF Cons.prems] by simp
  next
    case False
    then have new: "p \<notin> (\<lambda>t. mk_path h (path t)) ` set ts"
      by (auto simp add: list_ex_iff)
    have "mk_path h (path (read_metadata h probe p)) = p"
      using rt by simp
    with new Cons.prems
    have "distinct (map (\<lambda>t. mk_path h (path t)) (ts @ [read_metadata h probe p]))"
      by simp
    from Cons.IH [OF this] show ?thesis
      using False by simp
  qed
qed

lemma import_all_distinct:
  assumes rt: "\<forall>p. mk_path h (path_str h p) = p"
  shows "distinct (map (\<lambda>t. mk_path h (path t)) ts) \<Longrightarrow>
         distinct (map (\<lambda>t. mk_path h (path t)) (import_all h probe pss ts))"
proof (induction pss arbitrary: ts)
  case Nil
  then show ?case by simp
next
  case (Cons ps pss)
  have "distinct (map (\<lambda>t. mk_path h (path t)) (fst (add_loop h probe ps ts 0)))"
    using rt Cons.prems by (rule add_loop_distinct)
  from Cons.IH [OF this] show ?case
    by simp
qed

lemma apply_filter_total:
  "\<exists>s'. apply_filter rnd s = Inr s' \<and> tracks s' = tracks s \<and> history s' = history s"
proof -
  let ?s1 = "s\<lparr>visible_indices :=
                 filter_loop (py_lower (py_strip (search_text s))) 0 (tracks s)\<rparr>"
  from rebuild_play_order_total obtain s' where s': "rebuild_play_order True rnd ?s1 = Inr s'" ..
  have "tracks s' = tracks s" "history s' = history s"
    using rebuild_play_order_fields(1,3) [OF s'] by simp_all
  moreover have "apply_filter rnd s = Inr s'"
    using s' by (simp add: apply_filter_def Let_def)
  ultimately show ?thesis
    by (intro exI [where x = s'] conjI)
qed

lemma filter_then_rebuild:
  "\<exists>s'. (case apply_filter ra s of Inl e \<Rightarrow> Inl e
          | Inr s1 \<Rightarrow> rebuild_play_order False rb s1) = Inr s' \<and>
        tracks s' = tracks s \<and> history s' = history s"
proof -
  from apply_filter_total [of ra s] obtain s1
    where s1: "apply_filter ra s = Inr s1" and t1: "tracks s1 = tracks s"
      and h1: "history s1 = history s"
    by (elim exE conjE)
  from rebuild_play_order_total obtain s' where s': "rebuild_play_order False rb s1 = Inr s'" ..
  have "tracks s' = tracks s" "history s' = history s"
    using rebuild_play_order_fields(1,3) [OF s'] t1 h1 by simp_all
  moreover have "(case apply_filter ra s of Inl e \<Rightarrow> Inl e
          | Inr s1 \<Rightarrow> rebuild_play_order False rb s1) = Inr s'"
    using s1 s' by simp
  ultimately show ?thesis
    by (intro exI [where x = s'] conjI)
qed

lemma add_paths_registry:
  "\<exists>s'. add_paths h probe rnd1 rnd2 ps s = Inr s' \<and>
        tracks s' = fst (add_loop h probe ps (tracks s) 0)"
proof (cases "add_loop h probe ps (tracks s) 0")
  case (Pair ts added)
  show ?thesis
  proof (cases "added = 0")
    case True
    then show ?thesis
      using Pair by (simp add: add_paths_def)
  next
    case False
    from filter_then_rebuild [where ra = rnd1 and s = "s\<lparr>tracks := ts\<rparr>" and rb = rnd2]
    obtain s' where "(case apply_filter rnd1 (s\<lparr>tracks := ts\<rparr>) of Inl e \<Rightarrow> Inl e
          | Inr s1 \<Rightarrow> rebuild_play_order False rnd2 s1) = Inr s'"
      and "tracks s' = tracks (s\<lparr>tracks := ts\<rparr>)"
      by (elim exE conjE)
    then have "add_paths h probe rnd1 rnd2 ps s = Inr s' \<and>
        tracks s' = fst (add_loop h probe ps (tracks s) 0)"
      using Pair False by (simp add: add_paths_def)
    then show ?thesis
      by (rule exI)
  qed
qed

lemma load_entry_asdict:
  assumes "path t \<noteq> []" and "path_exists h (mk_path h (path t))"
  shows "load_entry h (asdict t) = Entry t"
  using assms by (simp add: load_entry_def asdict_def dict_get_def)

lemma load_loop_asdict:
  "list_all (\<lambda>t. path t \<noteq> [] \<and> path_exists h (mk_path h (path t))) ts \<Longrightarrow>
   load_loop h (map asdict ts) loaded = Inr (loaded @ ts)"
proof (induction ts arbitrary: loaded)
  case Nil
  then show ?case by simp
next
  case (Cons t ts)
  then have "load_entry h (asdict t) = Entry t"
    by (simp add: load_entry_asdict)
  moreover have "load_loop h (map asdict ts) (loaded @ [t]) = Inr ((loaded @ [t]) @ ts)"
    using Cons.prems by (intro Cons.IH) simp
  ultimately show ?case
    by simp
qed

lemma load_playlist_loaded:
  assumes "chosen \<noteq> []" and "load_loop h ts [] = Inr loaded" and "loaded \<noteq> []"
    and "dict_get kvs ''tracks'' (JArr []) = JArr ts"
  shows "\<exists>s'. load_playlist h ra rb chosen (Document (JObj kvs)) s = Loaded s' \<and>
              tracks s' = loaded \<and> history s' = []"
proof -
  from filter_then_rebuild [where ra = ra and rb = rb and s = "s\<lparr>tracks := loaded, history := []\<rparr>"]
  obtain s' where r: "(case apply_filter ra (s\<lparr>tracks := loaded, history := []\<rparr>) of
        Inl e \<Rightarrow> Inl e | Inr s1 \<Rightarrow> rebuild_play_order False rb s1) = Inr s'"
    and t: "tracks s' = tracks (s\<lparr>tracks := loaded, history := []\<rparr>)"
    and h: "history s' = history (s\<lparr>tracks := loaded, history := []\<rparr>)"
    by (elim exE conjE)
  have "load_playlist h ra rb chosen (Document (JObj kvs)) s = Loaded s'"
    using assms r by (auto simp add: load_playlist_def split: sum.splits)
  moreover have "tracks s' = loaded" "history s' = []"
    using t h by simp_all
  ultimately show ?thesis
    by (intro exI [where x = s'] conjI)
qed

text \<open>
  At the natural end of a track the full variant tests \<^verbatim>\<open>repeat_one\<close> before it calls
  \<^verbatim>\<open>play_next\<close>: nothing is pushed then.
\<close>

lemma handle_track_end_repeat_one:
  assumes "repeat_one s" and "handle_track_end s = Inr s'"
  shows "history s' = history s" "play_pos s' = play_pos s"
proof -
  have "load_current_and_play s = Inr s'"
    using assms by (simp add: handle_track_end_def)
  then show "history s' = history s" "play_pos s' = play_pos s"
    using load_current_and_play_fields(4,5) by simp_all
qed

text \<open>The cursor invariant does not hold in the slick variant once \<^verbatim>\<open>next\<close> has run off the end.\<close>

lemma slick_cursor_invariant_broken:
  "slick_cursor_ok slick_single \<and> \<not> slick_cursor_ok (slick_single\<lparr>sl_pos := 1\<rparr>)"
  by (simp add: slick_cursor_ok_def slick_single_def)

text \<open>
  Every sequence of sequencer operations of the full and of the autoplay variant, run
  from the initial window, returns and leaves the cursor within its bounds.
\<close>

lemma seq_run_cursor_ok:
  "\<exists>s'. seq_run as init_player = Inr s' \<and> cursor_ok s'"
proof -
  from seq_run_well_formed [OF well_formed_init, of as]
  obtain s' where "seq_run as init_player = Inr s'" and "well_formed s'"
    by (elim exE conjE)
  then have "seq_run as init_player = Inr s' \<and> cursor_ok s'"
    by (simp add: well_formed_def)
  then show ?thesis
    by (rule exI)
qed

section \<open>The claims of the specification\<close>

text \<open>
  C1 is broken by the slick variant. \<^verbatim>\<open>next\<close> increments the cursor before it tests
  the bound and returns without undoing the increment when Repeat All is unchecked: after
  the only track of \<open>slick_single\<close> the cursor equals the length of the play order. A
  later \<^verbatim>\<open>next\<close> under Repeat 1 then raises on \<^verbatim>\<open>self.order[self.pos]\<close>. (The
  full and the autoplay variant keep the invariant, see \<open>seq_run_cursor_ok\<close>.)
\<close>

theorem slick_next_leaves_cursor_past_end:
  "slick_next slick_single = Inr (slick_single\<lparr>sl_pos := 1\<rparr>) \<and>
   int (length (sl_order (slick_single\<lparr>sl_pos := 1\<rparr>))) = 1 \<and>
   slick_next (slick_single\<lparr>sl_pos := 1, sl_repeat_one := True\<rparr>) = Inl IndexError"
  by (simp add: slick_next_def slick_single_def slick_play_def py_getitem_def Let_def)

text \<open>
  C2. After a rebuild, whatever the filter view, the shuffle flag and the random draws,
  the play order holds exactly the elements of the filter view, each as often as the
  filter view holds it: nothing is lost and nothing is duplicated.
\<close>

theorem rebuild_play_order_contents:
  "\<exists>s'. rebuild_play_order keep rnd s = Inr s' \<and>
        mset (play_order s') = mset (visible_indices s)"
proof -
  obtain s' where s': "rebuild_play_order keep rnd s = Inr s'"
    using rebuild_play_order_total by blast
  have "mset (play_order s') = mset (visible_indices s)"
    by (simp add: rebuild_play_order_fields(9) [OF s'] mset_py_shuffle)
  with s' show ?thesis by blast
qed

text \<open>
  C3 is broken by the full variant. \<^verbatim>\<open>play_next\<close> appends the current index to the
  history before it looks at \<^verbatim>\<open>repeat_one\<close>: with Repeat 1 checked the cursor stays
  and the same track is started again, but the history grows. (The autoplay variant tests
  \<^verbatim>\<open>repeat_one\<close> first, see \<open>play_next_auto_repeat_one\<close>.)
\<close>

theorem play_next_repeat_one_pushes_history:
  "play_next repeat_one_start =
     Inr (repeat_one_start\<lparr>history := [0],
                            engine_log := [LoadPath ''/music/a.mp3'', Play]\<rparr>) \<and>
   history repeat_one_start = [] \<and> repeat_one repeat_one_start"
  by (simp add: play_next_def repeat_one_start_def current_track_index_def py_getitem_def
      load_current_and_play_def two_tracks_def Let_def)

text \<open>
  C4, as amended. With Repeat All and Repeat 1 off and the cursor at the last offset of a
  non-empty play order, going forward issues no further index: no file is loaded or
  started. The full and the autoplay variant tell the engine to stop and leave the cursor
  where it is; the slick variant sends the engine nothing.
\<close>

theorem forward_at_end_issues_nothing:
  "(\<not> repeat_all s \<and> \<not> repeat_one s \<and> play_order s \<noteq> [] \<and>
      play_pos s = int (length (play_order s)) - 1 \<longrightarrow>
      (\<exists>s'. play_next s = Inr s' \<and> play_next_auto s = Inr s' \<and>
            play_pos s' = play_pos s \<and> play_order s' = play_order s \<and>
            engine_log s' = engine_log s @ [Stop])) \<and>
   (\<not> sl_repeat_all t \<and> \<not> sl_repeat_one t \<and> sl_order t \<noteq> [] \<and>
      sl_pos t = int (length (sl_order t)) - 1 \<longrightarrow>
      (\<exists>t'. slick_next t = Inr t' \<and> sl_engine t' = sl_engine t \<and> sl_order t' = sl_order t))"
proof (intro conjI impI)
  assume a: "\<not> repeat_all s \<and> \<not> repeat_one s \<and> play_order s \<noteq> [] \<and>
      play_pos s = int (length (play_order s)) - 1"
  let ?s' = "(push_current s)\<lparr>engine_log := engine_log s @ [Stop]\<rparr>"
  have "play_next s = Inr ?s'" "play_next_auto s = Inr ?s'"
    using a play_next_stops_at_end(1,2) [of s] by simp_all
  moreover have "play_pos ?s' = play_pos s" "play_order ?s' = play_order s"
    "engine_log ?s' = engine_log s @ [Stop]"
    by simp_all
  ultimately show "\<exists>s'. play_next s = Inr s' \<and> play_next_auto s = Inr s' \<and>
            play_pos s' = play_pos s \<and> play_order s' = play_order s \<and>
            engine_log s' = engine_log s @ [Stop]"
    by (intro exI [where x = ?s'] conjI)
next
  assume a: "\<not> sl_repeat_all t \<and> \<not> sl_repeat_one t \<and> sl_order t \<noteq> [] \<and>
      sl_pos t = int (length (sl_order t)) - 1"
  let ?t' = "t\<lparr>sl_pos := sl_pos t + 1\<rparr>"
  have "slick_next t = Inr ?t'"
    using a slick_next_at_end [of t] by simp
  moreover have "sl_engine ?t' = sl_engine t" "sl_order ?t' = sl_order t"
    by simp_all
  ultimately show "\<exists>t'. slick_next t = Inr t' \<and> sl_engine t' = sl_engine t \<and>
      sl_order t' = sl_order t"
    by (intro exI [where x = ?t'] conjI)
qed

theorem forward_at_end_issues_nothing_witness:
  "(\<not> repeat_all full_last \<and> \<not> repeat_one full_last \<and> play_order full_last \<noteq> [] \<and>
      play_pos full_last = int (length (play_order full_last)) - 1) \<and>
   (\<exists>s'. play_next full_last = Inr s' \<and> play_next_auto full_last = Inr s' \<and>
         play_pos s' = play_pos full_last \<and> play_order s' = play_order full_last \<and>
         engine_log s' = engine_log full_last @ [Stop]) \<and>
   (\<not> sl_repeat_all slick_last \<and> \<not> sl_repeat_one slick_last \<and> sl_order slick_last \<noteq> [] \<and>
      sl_pos slick_last = int (length (sl_order slick_last)) - 1) \<and>
   (\<exists>t'. slick_next slick_last = Inr t' \<and> sl_engine t' = sl_engine slick_last \<and>
         sl_order t' = sl_order slick_last)"
proof -
  have f: "\<not> repeat_all full_last \<and> \<not> repeat_one full_last \<and> play_order full_last \<noteq> [] \<and>
      play_pos full_last = int (length (play_order full_last)) - 1"
    by (simp add: full_last_def plain_second_def)
  have k: "\<not> sl_repeat_all slick_last \<and> \<not> sl_repeat_one slick_last \<and>
      sl_order slick_last \<noteq> [] \<and>
      sl_pos slick_last = int (length (sl_order slick_last)) - 1"
    by (simp add: slick_last_def)
  note t = forward_at_end_issues_nothing [of full_last slick_last]
  note r1 = t [THEN conjunct1, THEN mp, OF f]
  note r2 = t [THEN conjunct2, THEN mp, OF k]
  show ?thesis
    by (rule conjI [OF f conjI [OF r1 conjI [OF k r2]]])
qed

text \<open>
  C4 as stated fails in the slick variant: at the last offset with Repeat All and Repeat 1
  unchecked, \<^verbatim>\<open>next\<close> moves the cursor from 1 to 2, past the end, and no stop is sent.
\<close>

theorem slick_next_at_end_moves_cursor:
  "slick_next slick_last = Inr (slick_last\<lparr>sl_pos := 2\<rparr>) \<and>
   sl_pos slick_last = 1 \<and> length (sl_order slick_last) = 2 \<and>
   sl_engine (slick_last\<lparr>sl_pos := 2\<rparr>) = sl_engine slick_last"
  by (simp add: slick_next_def slick_last_def Let_def)

text \<open>
  C5, as amended. With a non-empty play order and an empty history, going back in the
  full and in the autoplay variant decrements the cursor; below 0 it wraps to the last
  offset under Repeat All and is clamped to 0 otherwise. The slick variant, which keeps no
  history, always clamps: the new cursor is \<open>max 0 (pos - 1)\<close>, whatever Repeat All says.
  In a well-formed window each of these calls returns.
\<close>

theorem backward_cursor:
  "(play_order s \<noteq> [] \<and> history s = [] \<longrightarrow>
      (\<forall>s'. play_prev rnd s = Inr s' \<or> play_prev_auto s = Inr s' \<longrightarrow>
         play_pos s' =
           (if play_pos s - 1 < 0
            then (if repeat_all s then int (length (play_order s)) - 1 else 0)
            else play_pos s - 1)) \<and>
      (well_formed s \<longrightarrow> (\<exists>s'. play_prev rnd s = Inr s') \<and> (\<exists>s'. play_prev_auto s = Inr s'))) \<and>
   (sl_order t \<noteq> [] \<longrightarrow>
      (\<forall>t'. slick_prev t = Inr t' \<longrightarrow> sl_pos t' = max 0 (sl_pos t - 1)) \<and>
      (slick_playable t \<longrightarrow> (\<exists>t'. slick_prev t = Inr t')))"
proof (intro conjI impI allI)
  fix s'
  assume a: "play_order s \<noteq> [] \<and> history s = []"
    and b: "play_prev rnd s = Inr s' \<or> play_prev_auto s = Inr s'"
  from a have ne: "play_order s \<noteq> []" and h: "history s = []"
    by simp_all
  from b show "play_pos s' =
           (if play_pos s - 1 < 0
            then (if repeat_all s then int (length (play_order s)) - 1 else 0)
            else play_pos s - 1)"
  proof
    assume "play_prev rnd s = Inr s'"
    then show ?thesis
      by (rule play_prev_cursor(1) [OF ne h])
  next
    assume "play_prev_auto s = Inr s'"
    then show ?thesis
      by (rule play_prev_cursor(2) [OF ne h])
  qed
next
  assume "well_formed s"
  then show "\<exists>s'. play_prev rnd s = Inr s'"
    using play_prev_well_formed [of s rnd] by blast
next
  assume "well_formed s"
  then show "\<exists>s'. play_prev_auto s = Inr s'"
    using play_prev_auto_well_formed [of s] by blast
next
  fix t'
  assume "sl_order t \<noteq> []" and "slick_prev t = Inr t'"
  then show "sl_pos t' = max 0 (sl_pos t - 1)"
    by (rule slick_prev_pos)
next
  assume "slick_playable t"
  then show "\<exists>t'. slick_prev t = Inr t'"
    by (rule slick_prev_total)
qed

theorem backward_cursor_witness:
  "(play_order plain_first \<noteq> [] \<and> history plain_first = []) \<and> well_formed plain_first \<and>
   repeat_all plain_first \<and> play_pos plain_first = 0 \<and>
   (\<exists>s'. play_prev draw_keep plain_first = Inr s' \<and> play_pos s' = 1) \<and>
   (\<exists>s'. play_prev_auto plain_first = Inr s' \<and> play_pos s' = 1) \<and>
   sl_order slick_first \<noteq> [] \<and> slick_playable slick_first \<and>
   (\<exists>t'. slick_prev slick_first = Inr t' \<and> sl_pos t' = 0)"
proof -
  have a: "play_order plain_first \<noteq> [] \<and> history plain_first = []"
    by (simp add: plain_first_def plain_second_def)
  have w: "well_formed plain_first"
    by (simp add: well_formed_def cursor_ok_def indices_ok_def plain_first_def
        plain_second_def two_tracks_def)
  have r: "repeat_all plain_first" and p: "play_pos plain_first = 0"
    by (simp_all add: plain_first_def plain_second_def)
  have n: "int (length (play_order plain_first)) - 1 = 1"
    by (simp add: plain_first_def plain_second_def)
  have k: "sl_order slick_first \<noteq> []"
    by (simp add: slick_first_def)
  have q: "slick_playable slick_first"
    by (simp add: slick_playable_def slick_first_def two_tracks_def)
  have kp: "max 0 (sl_pos slick_first - 1) = 0"
    by (simp add: slick_first_def)
  note t = backward_cursor [of plain_first draw_keep slick_first]
  note full = t [THEN conjunct1, THEN mp, OF a]
  note full_pos = full [THEN conjunct1]
  note full_ret = full [THEN conjunct2, THEN mp, OF w]
  note slick = t [THEN conjunct2, THEN mp, OF k]
  note slick_pos = slick [THEN conjunct1]
  note slick_ret = slick [THEN conjunct2, THEN mp, OF q]
  from full_ret [THEN conjunct1] obtain s1 where s1: "play_prev draw_keep plain_first = Inr s1" ..
  from full_ret [THEN conjunct2] obtain s2 where s2: "play_prev_auto plain_first = Inr s2" ..
  from slick_ret obtain t1 where t1: "slick_prev slick_first = Inr t1" ..
  have "play_pos s1 = 1"
    using full_pos [THEN spec, of s1] s1 r p n by simp
  with s1 have e1: "\<exists>s'. play_prev draw_keep plain_first = Inr s' \<and> play_pos s' = 1"
    by (intro exI [where x = s1] conjI)
  have "play_pos s2 = 1"
    using full_pos [THEN spec, of s2] s2 r p n by simp
  with s2 have e2: "\<exists>s'. play_prev_auto plain_first = Inr s' \<and> play_pos s' = 1"
    by (intro exI [where x = s2] conjI)
  have "sl_pos t1 = 0"
    using slick_pos [THEN spec, of t1] t1 kp by simp
  with t1 have e3: "\<exists>t'. slick_prev slick_first = Inr t' \<and> sl_pos t' = 0"
    by (intro exI [where x = t1] conjI)
  show ?thesis
    by (rule conjI [OF a conjI [OF w conjI [OF r conjI [OF p conjI [OF e1 conjI [OF e2
          conjI [OF k conjI [OF q e3]]]]]]]])
qed

text \<open>
  C5 as stated fails in the slick variant: \<^verbatim>\<open>prev\<close> at offset 0 with Repeat All
  checked leaves the cursor at 0 and starts the first track again; it does not wrap to
  the last offset.
\<close>

theorem slick_prev_never_wraps:
  "slick_prev slick_first =
     Inr (slick_first\<lparr>sl_engine := [LoadPath ''/music/a.mp3'', Play]\<rparr>) \<and>
   sl_pos slick_first = 0 \<and> sl_repeat_all slick_first \<and> length (sl_order slick_first) = 2"
  by (simp add: slick_prev_def slick_first_def slick_play_def py_getitem_def two_tracks_def)

text \<open>
  C6, as amended. The full variant compares \<open>Path(t.path)\<close> with the path to import.
  Given that \<^verbatim>\<open>Path(str(p)) == p\<close> (pathlib's round trip), a registry without two
  entries of the same normalized path stays so under \<^verbatim>\<open>_add_paths\<close>, hence after any
  sequence of imports into the empty registry; a path whose normalized form is already
  present is skipped; and the window's registry after \<^verbatim>\<open>_add_paths\<close> is the one the
  loop built. The slick variant makes no such check: whenever the tags of a file can be
  read, \<^verbatim>\<open>_add\<close> appends a track for it.
\<close>

theorem import_duplicates:
  "((\<forall>p. mk_path h (path_str h p) = p) \<longrightarrow>
      distinct (map (\<lambda>t. mk_path h (path t)) (import_all h probe pss [])) \<and>
      (distinct (map (\<lambda>t. mk_path h (path t)) ts) \<longrightarrow>
         distinct (map (\<lambda>t. mk_path h (path t)) (fst (add_loop h probe ps ts n))))) \<and>
   (list_ex (\<lambda>t. mk_path h (path t) = q) ts \<longrightarrow>
      add_loop h probe (q # ps) ts n = add_loop h probe ps ts n) \<and>
   (\<exists>s'. add_paths h probe ra rb ps s = Inr s' \<and>
         tracks s' = fst (add_loop h probe ps (tracks s) 0)) \<and>
   (tags q = Some (ti, ar, al, d) \<longrightarrow>
      sl_tracks (slick_add h tags q k) =
        sl_tracks k @ [\<lparr>path = path_str h q, title = ti, artist = ar, album = al,
                         duration_ms = d\<rparr>])"
proof (intro conjI impI)
  assume rt: "\<forall>p. mk_path h (path_str h p) = p"
  have "distinct (map (\<lambda>t. mk_path h (path t)) ([] :: track list))"
    by simp
  with rt show "distinct (map (\<lambda>t. mk_path h (path t)) (import_all h probe pss []))"
    by (rule import_all_distinct)
next
  assume "\<forall>p. mk_path h (path_str h p) = p"
    and "distinct (map (\<lambda>t. mk_path h (path t)) ts)"
  then show "distinct (map (\<lambda>t. mk_path h (path t)) (fst (add_loop h probe ps ts n)))"
    by (rule add_loop_distinct)
next
  assume "list_ex (\<lambda>t. mk_path h (path t) = q) ts"
  then show "add_loop h probe (q # ps) ts n = add_loop h probe ps ts n"
    by (rule add_loop_skips_known)
next
  show "\<exists>s'. add_paths h probe ra rb ps s = Inr s' \<and>
         tracks s' = fst (add_loop h probe ps (tracks s) 0)"
    by (rule add_paths_registry)
next
  assume "tags q = Some (ti, ar, al, d)"
  then show "sl_tracks (slick_add h tags q k) =
        sl_tracks k @ [\<lparr>path = path_str h q, title = ti, artist = ar, album = al,
                         duration_ms = d\<rparr>]"
    by (simp add: slick_add_def)
qed


theorem import_duplicates_witness:
  "(\<forall>p. mk_path plain_host (path_str plain_host p) = p) \<and>
   distinct (map (\<lambda>t. mk_path plain_host (path t)) two_tracks) \<and>
   list_ex (\<lambda>t. mk_path plain_host (path t) = ''/music/a.mp3'') two_tracks \<and>
   plain_tags ''/music/a.mp3'' = Some (''/music/a.mp3'', [], [], - 1) \<and>
   distinct (map (\<lambda>t. mk_path plain_host (path t))
      (import_all plain_host plain_probe
         [[''/music/a.mp3'', ''/music/a.mp3''], [''/music/a.mp3'', ''/music/c.mp3'']] [])) \<and>
   distinct (map (\<lambda>t. mk_path plain_host (path t))
      (fst (add_loop plain_host plain_probe [''/music/c.mp3''] two_tracks 0))) \<and>
   add_loop plain_host plain_probe [''/music/a.mp3'', ''/music/c.mp3''] two_tracks 0 =
     add_loop plain_host plain_probe [''/music/c.mp3''] two_tracks 0 \<and>
   sl_tracks (slick_add plain_host plain_tags ''/music/a.mp3'' init_slick) =
     sl_tracks init_slick @
       [\<lparr>path = path_str plain_host ''/music/a.mp3'', title = ''/music/a.mp3'', artist = [],
         album = [], duration_ms = - 1\<rparr>]"
proof -
  have rt: "\<forall>p. mk_path plain_host (path_str plain_host p) = p"
    by (simp add: plain_host_def)
  have d: "distinct (map (\<lambda>t. mk_path plain_host (path t)) two_tracks)"
    by (simp add: plain_host_def two_tracks_def)
  have e: "list_ex (\<lambda>t. mk_path plain_host (path t) = ''/music/a.mp3'') two_tracks"
    by (simp add: plain_host_def two_tracks_def)
  have g: "plain_tags ''/music/a.mp3'' = Some (''/music/a.mp3'', [], [], - 1)"
    by (simp add: plain_tags_def)
  note t = import_duplicates [where h = plain_host and probe = plain_probe
      and pss = "[[''/music/a.mp3'', ''/music/a.mp3''], [''/music/a.mp3'', ''/music/c.mp3'']]"
      and ts = two_tracks and ps = "[''/music/c.mp3'']" and n = 0 and q = "''/music/a.mp3''"
      and tags = plain_tags and ti = "''/music/a.mp3''" and ar = "[]" and al = "[]"
      and d = "- 1" and k = init_slick and s = init_player and ra = draw_keep and rb = draw_keep]
  note full = t [THEN conjunct1, THEN mp, OF rt]
  note r1 = full [THEN conjunct1]
  note r2 = full [THEN conjunct2, THEN mp, OF d]
  note r3 = t [THEN conjunct2, THEN conjunct1, THEN mp, OF e]
  note r4 = t [THEN conjunct2, THEN conjunct2, THEN conjunct2, THEN mp, OF g]
  show ?thesis
    by (rule conjI [OF rt conjI [OF d conjI [OF e conjI [OF g conjI [OF r1 conjI [OF r2
          conjI [OF r3 r4]]]]]]])
qed

text \<open>
  C6 as stated fails in the slick variant: importing the same file twice leaves two
  entries with the same path.
\<close>

theorem slick_add_keeps_duplicates:
  "map path (sl_tracks (slick_add_files plain_host plain_tags draw_keep
       [''/music/a.mp3'', ''/music/a.mp3''] init_slick)) =
     [''/music/a.mp3'', ''/music/a.mp3'']"
  by (simp add: slick_add_files_def slick_add_def slick_refresh_def plain_host_def
      plain_tags_def init_slick_def Let_def)

text \<open>
  C7, as amended. For a registry that is not empty and whose tracks all have a non-empty
  path that exists, \<^verbatim>\<open>save_playlist\<close> (a file chosen, the write succeeding) produces
  a document, and \<^verbatim>\<open>load_playlist\<close> on that document installs a registry equal to
  the saved one, track for track and field for field, in the same order, and clears the
  history.
\<close>

theorem save_load_round_trip:
  assumes "tracks s \<noteq> []" and "chosen \<noteq> []" and "opened \<noteq> []"
    and "list_all (\<lambda>t. path t \<noteq> [] \<and> path_exists h (mk_path h (path t))) (tracks s)"
  shows "\<exists>doc s'. save_playlist chosen now True s = Saved chosen doc \<and>
           load_playlist h ra rb opened (Document doc) w = Loaded s' \<and>
           tracks s' = tracks s \<and> history s' = []"
proof -
  let ?kvs = "[(''version'', JInt 1), (''saved_at'', JInt now),
               (''tracks'', JArr (map asdict (tracks s)))]"
  have sv: "save_playlist chosen now True s = Saved chosen (JObj ?kvs)"
    using assms(1,2) by (simp add: save_playlist_def)
  have g: "dict_get ?kvs ''tracks'' (JArr []) = JArr (map asdict (tracks s))"
    by (simp add: dict_get_def)
  have lp: "load_loop h (map asdict (tracks s)) [] = Inr (tracks s)"
    using load_loop_asdict [OF assms(4), of "[]"] by simp
  from load_playlist_loaded [OF assms(3) lp assms(1) g, of ra rb w]
  obtain s' where "load_playlist h ra rb opened (Document (JObj ?kvs)) w = Loaded s'"
    and "tracks s' = tracks s" and "history s' = []"
    by (elim exE conjE)
  with sv show ?thesis
    by (intro exI [where x = "JObj ?kvs"] exI [where x = s'] conjI)
qed

theorem save_load_round_trip_witness:
  "tracks plain_second \<noteq> [] \<and>
   list_all (\<lambda>t. path t \<noteq> [] \<and> path_exists plain_host (mk_path plain_host (path t)))
     (tracks plain_second) \<and>
   (\<exists>doc s'. save_playlist ''/tmp/list.json'' 1700000000 True plain_second =
                Saved ''/tmp/list.json'' doc \<and>
      load_playlist plain_host draw_keep draw_keep ''/tmp/list.json'' (Document doc)
        init_player = Loaded s' \<and>
      tracks s' = tracks plain_second \<and> history s' = [])"
proof -
  have a: "tracks plain_second \<noteq> []"
    by (simp add: plain_second_def two_tracks_def)
  have b: "list_all (\<lambda>t. path t \<noteq> [] \<and> path_exists plain_host (mk_path plain_host (path t)))
     (tracks plain_second)"
    by (simp add: plain_second_def two_tracks_def plain_host_def)
  have c: "''/tmp/list.json'' \<noteq> []"
    by simp
  note t = save_load_round_trip [OF a c c b, of 1700000000 draw_keep draw_keep init_player]
  show ?thesis
    by (rule conjI [OF a conjI [OF b t]])
qed

text \<open>
  C7 as stated fails for the empty registry, whose tracks all exist: \<^verbatim>\<open>save_playlist\<close>
  returns at \<^verbatim>\<open>if not self.tracks\<close> and writes no document, and a document with an
  empty track list is answered with "Nothing loaded", the registry left as it was.
\<close>

theorem empty_registry_is_not_saved:
  "tracks init_player = [] \<and>
   save_playlist ''/tmp/list.json'' 1700000000 True init_player = NoTracks \<and>
   load_playlist plain_host draw_keep draw_keep ''/tmp/list.json''
     (Document (JObj [(''version'', JInt 1), (''saved_at'', JInt 1700000000),
                      (''tracks'', JArr [])])) init_player = NothingLoaded"
  by (simp add: save_playlist_def load_playlist_def dict_get_def init_player_def)

text \<open>
  C8, as amended. Two rebuilds with \<open>keep_current\<close> in succession always return, and
  the second keeps the current track of the first. With shuffle off it also keeps the
  play order and the cursor position. With shuffle on the order is drawn afresh, so the
  offset of the current track may move.
\<close>

theorem rebuild_twice:
  "\<exists>s1 s2. rebuild_play_order True rnd1 s = Inr s1 \<and>
           rebuild_play_order True rnd2 s1 = Inr s2 \<and>
           current_track_index s2 = current_track_index s1 \<and>
           (\<not> shuffle s \<longrightarrow> play_pos s2 = play_pos s1 \<and> play_order s2 = play_order s1)"
proof -
  obtain s1 where s1: "rebuild_play_order True rnd1 s = Inr s1"
    using rebuild_play_order_total by blast
  obtain s2 where s2: "rebuild_play_order True rnd2 s1 = Inr s2"
    using rebuild_play_order_total by blast
  have cur: "current_track_index s2 = current_track_index s1"
    using s1 s2 by (rule rebuild_keeps_current)
  have same: "\<not> shuffle s \<longrightarrow> play_pos s2 = play_pos s1 \<and> play_order s2 = play_order s1"
  proof
    assume "\<not> shuffle s"
    with s1 have "rebuild_play_order True rnd2 s1 = Inr s1"
      by (rule rebuild_keeps_position)
    with s2 have "s2 = s1"
      by (simp only: sum.inject)
    then show "play_pos s2 = play_pos s1 \<and> play_order s2 = play_order s1"
      by simp
  qed
  from s1 s2 cur same show ?thesis
    by (intro exI conjI)
qed

theorem rebuild_twice_witness:
  "\<not> shuffle plain_second \<and>
   (\<exists>s1 s2. rebuild_play_order True draw_front plain_second = Inr s1 \<and>
            rebuild_play_order True draw_front s1 = Inr s2 \<and>
            current_track_index s2 = current_track_index s1 \<and>
            play_pos s2 = play_pos s1 \<and> play_order s2 = play_order s1)"
proof -
  have off: "\<not> shuffle plain_second"
    by (simp add: plain_second_def)
  obtain s1 s2 where a: "rebuild_play_order True draw_front plain_second = Inr s1"
    and b: "rebuild_play_order True draw_front s1 = Inr s2"
    and c: "current_track_index s2 = current_track_index s1"
    and d: "\<not> shuffle plain_second \<longrightarrow> play_pos s2 = play_pos s1 \<and> play_order s2 = play_order s1"
    using rebuild_twice [of draw_front plain_second draw_front] by (elim exE conjE)
  from d off have e: "play_pos s2 = play_pos s1 \<and> play_order s2 = play_order s1"
    by (rule mp)
  have "\<exists>s1 s2. rebuild_play_order True draw_front plain_second = Inr s1 \<and>
            rebuild_play_order True draw_front s1 = Inr s2 \<and>
            current_track_index s2 = current_track_index s1 \<and>
            play_pos s2 = play_pos s1 \<and> play_order s2 = play_order s1"
    apply (rule exI [where x = s1])
    apply (rule exI [where x = s2])
    using a b c e apply (simp only: simp_thms)
    done
  with off show ?thesis
    by (rule conjI)
qed

text \<open>
  C8 as stated fails with shuffle on: the first rebuild leaves the cursor at offset 0, the
  second, drawing another order, leaves it at offset 1.
\<close>

theorem rebuild_twice_position_moves:
  "rebuild_play_order True draw_keep shuffled_start = Inr shuffled_first \<and>
   rebuild_play_order True draw_front shuffled_first = Inr shuffled_second \<and>
   play_pos shuffled_first = 0 \<and> play_pos shuffled_second = 1"
  by (simp add: rebuild_play_order_def current_track_index_def py_getitem_def py_shuffle_def
      shuffled_start_def shuffled_first_def shuffled_second_def draw_keep_def draw_front_def
      Let_def)

text \<open>
  C9. The current-track lookup never raises: it gives \<open>-1\<close> when the cursor is outside
  \<open>[0, len(play_order))\<close> and the element under the cursor otherwise. When it gives
  \<open>-1\<close>, \<^verbatim>\<open>_load_current_and_play\<close> returns without touching the state or the engine.
\<close>

theorem current_track_lookup_total:
  "current_track_index s =
     Inr (if play_pos s < 0 \<or> int (length (play_order s)) \<le> play_pos s then - 1
          else play_order s ! nat (play_pos s))
   \<and> (current_track_index s = Inr (- 1) \<longrightarrow> load_current_and_play s = Inr s)"
  by (simp add: current_track_index_eq load_current_and_play_def)

theorem current_track_lookup_total_witness:
  "current_track_index init_player = Inr (- 1) \<and>
   load_current_and_play init_player = Inr init_player"
proof -
  have pos: "play_pos init_player < 0"
    by (simp add: init_player_def)
  have cur: "current_track_index init_player = Inr (- 1)"
    using current_track_lookup_total [of init_player] pos by simp
  then show ?thesis
    using current_track_lookup_total [of init_player] by simp
qed

text \<open>
  C10. A query made of whitespace only is stripped to the empty query: the filter then
  keeps every registry index, in registry order, exactly as for the empty query, and the
  filter view of the window is that list.
\<close>

theorem whitespace_query_matches_all:
  assumes "list_all py_isspace query"
  shows "filter_loop (py_lower (py_strip query)) 0 ts = map int [0..<length ts] \<and>
         filter_loop (py_lower (py_strip query)) 0 ts = filter_loop (py_lower (py_strip [])) 0 ts \<and>
         (\<exists>s'. apply_filter rnd (s\<lparr>search_text := query\<rparr>) = Inr s' \<and>
               visible_indices s' = map int [0..<length (tracks s)])"
proof -
  have q: "py_lower (py_strip query) = []"
    using assms by (simp add: py_strip_whitespace py_lower_def)
  have all: "filter_loop (py_lower (py_strip query)) 0 us = map int [0..<length us]" for us
    by (simp add: q filter_loop_empty_query)
  have "py_lower (py_strip []) = []"
    by (simp add: py_strip_def py_lower_def)
  with q have same: "filter_loop (py_lower (py_strip query)) 0 ts =
      filter_loop (py_lower (py_strip [])) 0 ts"
    by simp
  let ?s1 = "s\<lparr>search_text := query, visible_indices := map int [0..<length (tracks s)]\<rparr>"
  obtain s' where s': "rebuild_play_order True rnd ?s1 = Inr s'"
    using rebuild_play_order_total by blast
  have "apply_filter rnd (s\<lparr>search_text := query\<rparr>) = Inr s'"
    using s' by (simp add: apply_filter_def Let_def all)
  moreover have "visible_indices s' = map int [0..<length (tracks s)]"
    using rebuild_play_order_fields(2) [OF s'] by simp
  ultimately have "\<exists>s'. apply_filter rnd (s\<lparr>search_text := query\<rparr>) = Inr s' \<and>
              visible_indices s' = map int [0..<length (tracks s)]"
    by blast
  with all [of ts] same show ?thesis by blast
qed

theorem whitespace_query_matches_all_witness:
  "list_all py_isspace [CHR '' '', CHR 0x09, CHR '' ''] \<and>
   filter_loop (py_lower (py_strip [CHR '' '', CHR 0x09, CHR '' ''])) 0 two_tracks = [0, 1] \<and>
   filter_loop (py_lower (py_strip [])) 0 two_tracks = [0, 1]"
proof -
  have ws: "list_all py_isspace [CHR '' '', CHR 0x09, CHR '' '']"
    by (simp add: py_isspace_def)
  have len: "map int [0..<length two_tracks] = [0, 1]"
    by (simp add: two_tracks_def upt_conv_Cons)
  have a: "filter_loop (py_lower (py_strip [CHR '' '', CHR 0x09, CHR '' ''])) 0 two_tracks =
      map int [0..<length two_tracks]"
    and b: "filter_loop (py_lower (py_strip [CHR '' '', CHR 0x09, CHR '' ''])) 0 two_tracks =
      filter_loop (py_lower (py_strip [])) 0 two_tracks"
    using whitespace_query_matches_all [OF ws, of two_tracks "\<lambda>_. 0" init_player]
    by blast+
  have a': "filter_loop (py_lower (py_strip [CHR '' '', CHR 0x09, CHR '' ''])) 0 two_tracks = [0, 1]"
    using a len by (simp only:)
  have b': "filter_loop (py_lower (py_strip [])) 0 two_tracks = [0, 1]"
    using a' b by (simp only:)
  show ?thesis
    using ws a' b' by blast
qed

end
